theory Spec2Isabelle
  imports Complex_Main "HOL-Library.Word"
begin

section \<open>Bytes, Python errors and list indexing\<close>

text \<open>
  A Python \<open>bytes\<close> value is a list of octets. The exceptions raised by the modelled
  functions (and by the library calls they make) are values of \<open>py_error\<close>; a function
  that can raise returns \<open>py_error + 'a\<close>, with \<open>Inl\<close> for the exception.
\<close>

type_synonym byte = "8 word"
type_synonym bytes = "byte list"

datatype py_error = ValueError | IndexError | OverflowError | ZeroDivisionError | EncodingError

text \<open>
  Subscripting a list with an integer, as \<open>layer[idx + 1]\<close> and \<open>self.layers[-1]\<close>
  do: indices from \<open>0\<close> to \<open>len - 1\<close> read from the front, indices from \<open>-len\<close> to
  \<open>-1\<close> read from the back, and any other index raises \<open>IndexError\<close>.
\<close>

definition py_index :: "'a list \<Rightarrow> int \<Rightarrow> py_error + 'a" where
  "py_index xs i =
     (if 0 \<le> i \<and> i < int (length xs) then Inr (xs ! nat i)
      else if i < 0 \<and> - int (length xs) \<le> i then Inr (xs ! nat (int (length xs) + i))
      else Inl IndexError)"

text \<open>
  Python's \<open>a <= b\<close> on \<open>bytes\<close>: the first differing octet decides, compared as an
  unsigned number (the order of \<open>8 word\<close>); a proper prefix is smaller.
\<close>

fun bytes_le :: "bytes \<Rightarrow> bytes \<Rightarrow> bool" where
  "bytes_le [] ys = True"
| "bytes_le (x # xs) [] = False"
| "bytes_le (x # xs) (y # ys) = (if x = y then bytes_le xs ys else x < y)"

section \<open>merkle.py: the tree\<close>

text \<open>
  \<open>Web3.keccak\<close> is a library function; every definition below takes it as the
  parameter \<open>keccak\<close>. The properties of the tree hold for every function \<open>keccak\<close>.
\<close>

definition hash_pair :: "(bytes \<Rightarrow> bytes) \<Rightarrow> bytes \<Rightarrow> bytes \<Rightarrow> bytes" where
  "hash_pair keccak a b = (if bytes_le a b then keccak (a @ b) else keccak (b @ a))"

record MerkleTree =
  leaves :: "bytes list"
  layers :: "bytes list list"

text \<open>
  The \<open>for i in range(0, n, 2)\<close> loop of \<open>_build\<close>: \<open>i\<close> is the loop variable and
  \<open>next_layer\<close> the list built so far.
\<close>

function build_for :: "(bytes \<Rightarrow> bytes) \<Rightarrow> bytes list \<Rightarrow> nat \<Rightarrow> bytes list \<Rightarrow> bytes list" where
  "build_for keccak layer i next_layer =
     (if i < length layer
      then build_for keccak layer (i + 2)
             (next_layer @
               [if i + 1 < length layer
                then hash_pair keccak (layer ! i) (layer ! (i + 1))
                else layer ! i])
      else next_layer)"
  by pat_completeness auto
termination
  by (relation "measure (\<lambda>(keccak, layer, i, next_layer). length layer - i)") auto

declare build_for.simps [simp del]

lemma length_build_for:
  "length (build_for keccak layer i acc) = length acc + (length layer - i + 1) div 2"
proof (induction keccak layer i acc rule: build_for.induct)
  case (1 keccak layer i acc)
  show ?case
  proof (cases "i < length layer")
    case True
    have "length (build_for keccak layer i acc)
        = length (build_for keccak layer (i + 2)
            (acc @ [if i + 1 < length layer
                    then hash_pair keccak (layer ! i) (layer ! (i + 1)) else layer ! i]))"
      using True by (subst build_for.simps) simp
    also have "\<dots> = length acc + 1 + (length layer - (i + 2) + 1) div 2"
      using "1.IH" [OF True] by simp
    also have "\<dots> = length acc + (length layer - i + 1) div 2"
      using True by arith
    finally show ?thesis .
  next
    case False
    then show ?thesis by (subst build_for.simps) simp
  qed
qed

text \<open>The \<open>while len(layer) > 1\<close> loop of \<open>_build\<close>, with \<open>self.layers\<close> as accumulator.\<close>

function build_while :: "(bytes \<Rightarrow> bytes) \<Rightarrow> bytes list \<Rightarrow> bytes list list \<Rightarrow> bytes list list" where
  "build_while keccak layer lys =
     (if length layer > 1
      then (let next_layer = build_for keccak layer 0 []
            in build_while keccak next_layer (lys @ [next_layer]))
      else lys)"
  by pat_completeness auto
termination
  by (relation "measure (\<lambda>(keccak, layer, lys). length layer)")
     (auto simp: length_build_for)

declare build_while.simps [simp del]

definition build :: "(bytes \<Rightarrow> bytes) \<Rightarrow> MerkleTree \<Rightarrow> MerkleTree" where
  "build keccak self =
     self\<lparr>layers := build_while keccak (leaves self) (layers self @ [leaves self])\<rparr>"

text \<open>\<open>MerkleTree.__init__\<close>: an empty leaf list raises \<open>ValueError\<close>.\<close>

definition MerkleTree_init :: "(bytes \<Rightarrow> bytes) \<Rightarrow> bytes list \<Rightarrow> py_error + MerkleTree" where
  "MerkleTree_init keccak lvs =
     (if lvs = [] then Inl ValueError
      else Inr (build keccak \<lparr>leaves = lvs, layers = []\<rparr>))"

text \<open>The property \<open>root\<close>: \<open>self.layers[-1][0]\<close>.\<close>

definition root :: "MerkleTree \<Rightarrow> py_error + bytes" where
  "root self =
     (case py_index (layers self) (- 1) of
        Inl e \<Rightarrow> Inl e
      | Inr top_layer \<Rightarrow> py_index top_layer 0)"

text \<open>
  The loop of \<open>get_proof\<close> over \<open>self.layers[:-1]\<close>; \<open>idx\<close> is a Python integer and
  \<open>pf\<close> the list \<open>proof\<close> built so far.
\<close>

fun get_proof_loop :: "bytes list list \<Rightarrow> int \<Rightarrow> bytes list \<Rightarrow> py_error + bytes list" where
  "get_proof_loop [] idx pf = Inr pf"
| "get_proof_loop (layer # rest) idx pf =
     (let n = int (length layer) in
      if idx mod 2 = 0 then
        (if idx + 1 < n then
           (case py_index layer (idx + 1) of
              Inl e \<Rightarrow> Inl e
            | Inr sibling \<Rightarrow> get_proof_loop rest (idx div 2) (pf @ [sibling]))
         else get_proof_loop rest (idx div 2) pf)
      else
        (case py_index layer (idx - 1) of
           Inl e \<Rightarrow> Inl e
         | Inr sibling \<Rightarrow> get_proof_loop rest (idx div 2) (pf @ [sibling])))"

definition get_proof :: "MerkleTree \<Rightarrow> int \<Rightarrow> py_error + bytes list" where
  "get_proof self index =
     (if index < 0 \<or> index \<ge> int (length (leaves self)) then Inl IndexError
      else get_proof_loop (butlast (layers self)) index [])"

text \<open>
  A call of the method as a step on the object: \<open>get_proof\<close> assigns to no attribute of
  \<open>self\<close>, so the object after the call is the object before it, whatever the outcome.
\<close>

definition get_proof_call :: "MerkleTree \<Rightarrow> int \<Rightarrow> (py_error + bytes list) \<times> MerkleTree" where
  "get_proof_call self index = (get_proof self index, self)"

text \<open>\<open>verify\<close>: fold the leaf through the proof, then compare with the root.\<close>

fun verify_loop :: "(bytes \<Rightarrow> bytes) \<Rightarrow> bytes \<Rightarrow> bytes list \<Rightarrow> bytes" where
  "verify_loop keccak computed [] = computed"
| "verify_loop keccak computed (sibling # rest) =
     verify_loop keccak (hash_pair keccak computed sibling) rest"

definition verify :: "(bytes \<Rightarrow> bytes) \<Rightarrow> MerkleTree \<Rightarrow> bytes \<Rightarrow> bytes list \<Rightarrow> bytes \<Rightarrow> bool" where
  "verify keccak self leaf pf rt = (verify_loop keccak leaf pf = rt)"

section \<open>types.py: the intent\<close>

text \<open>
  The dataclasses \<open>PoolKey\<close> and \<open>LPIntent\<close>. Addresses are Python strings (hexadecimal
  text), the other fields Python integers.
\<close>

record PoolKey =
  currency0 :: string
  currency1 :: string
  fee :: int
  tick_spacing :: int
  hooks :: string

record LPIntent =
  user :: string
  pool :: PoolKey
  tick_lower :: int
  tick_upper :: int
  amount :: int
  nonce :: int
  deadline :: int

section \<open>Integers as big-endian bytes\<close>

text \<open>
  \<open>be_bytes len n\<close> is the big-endian representation of \<open>n\<close> in \<open>len\<close> octets (the low
  \<open>len\<close> octets of \<open>n\<close>), and \<open>be_int\<close> reads such a representation back.
  \<open>int_to_bytes\<close> is Python's \<open>n.to_bytes(len, "big")\<close>, which raises
  \<open>OverflowError\<close> for a negative \<open>n\<close> and for an \<open>n\<close> that does not fit.
\<close>

fun be_bytes :: "nat \<Rightarrow> int \<Rightarrow> bytes" where
  "be_bytes 0 n = []"
| "be_bytes (Suc len) n = be_bytes len (n div 256) @ [word_of_int (n mod 256)]"

definition be_int :: "bytes \<Rightarrow> int" where
  "be_int bs = foldl (\<lambda>acc b. acc * 256 + uint b) 0 bs"

definition int_to_bytes :: "int \<Rightarrow> nat \<Rightarrow> py_error + bytes" where
  "int_to_bytes n len =
     (if n < 0 then Inl OverflowError
      else if 256 ^ len \<le> n then Inl OverflowError
      else Inr (be_bytes len n))"

section \<open>merkle.py: the leaf of an intent\<close>

text \<open>
  Modelled from the spec: \<open>eth_abi.encode\<close>, a library function that is not part of
  the repository, for the static types \<open>compute_leaf\<close> and \<open>_hash_pool_key\<close> pass to
  it. Every value becomes one 32-byte word: an address is its 20 bytes left-padded with
  zeros, an unsigned integer is big-endian and zero-extended, a signed integer is
  big-endian and sign-extended (its two's complement in 256 bits), a \<open>bytes32\<close> value
  is the 32 bytes themselves (a shorter value would be padded with zeros on the right).
  A field that cannot be encoded in its fixed width (an integer outside the range of its
  type, a value of the wrong kind, a malformed address) fails with \<open>EncodingError\<close>.
  The conversion of the text of an address to its bytes is left to the parameter
  \<open>to_canonical\<close>, which stands for the library's \<open>to_canonical_address\<close>.
\<close>

datatype abi_type = Bytes nat | Address | UInt nat | SInt nat

datatype abi_value = BytesVal bytes | StrVal string | IntVal int

definition zpad :: "bytes \<Rightarrow> nat \<Rightarrow> bytes" where
  "zpad bs len = replicate (len - length bs) 0 @ bs"

definition zpad_right :: "bytes \<Rightarrow> nat \<Rightarrow> bytes" where
  "zpad_right bs len = bs @ replicate (len - length bs) 0"

fun encode_single :: "(string \<Rightarrow> py_error + bytes) \<Rightarrow> abi_type \<Rightarrow> abi_value \<Rightarrow> py_error + bytes" where
  "encode_single to_canonical (Bytes n) (BytesVal bs) =
     (if length bs \<le> n then Inr (zpad_right bs 32) else Inl EncodingError)"
| "encode_single to_canonical Address (StrVal a) =
     (case to_canonical a of
        Inl e \<Rightarrow> Inl e
      | Inr bs \<Rightarrow> Inr (zpad bs 32))"
| "encode_single to_canonical (UInt bits) (IntVal n) =
     (if 0 \<le> n \<and> n < 2 ^ bits then Inr (be_bytes 32 n) else Inl EncodingError)"
| "encode_single to_canonical (SInt bits) (IntVal n) =
     (if - (2 ^ (bits - 1)) \<le> n \<and> n < 2 ^ (bits - 1)
      then Inr (be_bytes 32 (n mod 2 ^ 256))
      else Inl EncodingError)"
| "encode_single to_canonical _ _ = Inl EncodingError"

fun encode :: "(string \<Rightarrow> py_error + bytes) \<Rightarrow> abi_type list \<Rightarrow> abi_value list \<Rightarrow> py_error + bytes" where
  "encode to_canonical [] [] = Inr []"
| "encode to_canonical (t # ts) (a # as) =
     (case encode_single to_canonical t a of
        Inl e \<Rightarrow> Inl e
      | Inr w \<Rightarrow>
          (case encode to_canonical ts as of
             Inl e \<Rightarrow> Inl e
           | Inr ws \<Rightarrow> Inr (w @ ws)))"
| "encode to_canonical _ _ = Inl EncodingError"

text \<open>\<open>Web3.keccak(text=s)\<close> hashes the UTF-8 bytes of \<open>s\<close>; the strings here are ASCII.\<close>

definition utf8 :: "string \<Rightarrow> bytes" where
  "utf8 s = map of_char s"

definition hash_pool_key ::
  "(bytes \<Rightarrow> bytes) \<Rightarrow> (string \<Rightarrow> py_error + bytes) \<Rightarrow> PoolKey \<Rightarrow> py_error + bytes" where
  "hash_pool_key keccak to_canonical pk =
     (let pool_key_typehash = keccak (utf8
        ''PoolKey(address currency0,address currency1,uint24 fee,int24 tickSpacing,address hooks)'')
      in case encode to_canonical
             [Bytes 32, Address, Address, UInt 24, SInt 24, Address]
             [BytesVal pool_key_typehash, StrVal (currency0 pk), StrVal (currency1 pk),
              IntVal (fee pk), IntVal (tick_spacing pk), StrVal (hooks pk)] of
           Inl e \<Rightarrow> Inl e
         | Inr encoded \<Rightarrow> Inr (keccak encoded))"

definition compute_leaf ::
  "(bytes \<Rightarrow> bytes) \<Rightarrow> (string \<Rightarrow> py_error + bytes) \<Rightarrow> LPIntent \<Rightarrow> py_error + bytes" where
  "compute_leaf keccak to_canonical intent =
     (let lp_intent_typehash = keccak (utf8
        ''LPIntent(address user,PoolKey pool,int24 tickLower,int24 tickUpper,uint256 amount,uint256 nonce,uint256 deadline)PoolKey(address currency0,address currency1,uint24 fee,int24 tickSpacing,address hooks)'')
      in case hash_pool_key keccak to_canonical (pool intent) of
           Inl e \<Rightarrow> Inl e
         | Inr pool_hash \<Rightarrow>
             (case encode to_canonical
                [Bytes 32, Address, Bytes 32, SInt 24, SInt 24, UInt 256, UInt 256, UInt 256]
                [BytesVal lp_intent_typehash, StrVal (user intent), BytesVal pool_hash,
                 IntVal (tick_lower intent), IntVal (tick_upper intent),
                 IntVal (amount intent), IntVal (nonce intent), IntVal (deadline intent)] of
                Inl e \<Rightarrow> Inl e
              | Inr encoded \<Rightarrow> Inr (keccak encoded)))"

section \<open>signer.py: signing an intent\<close>

text \<open>
  Python dictionaries with string keys, as \<open>build_eip712_message\<close> builds them: an
  association list in insertion order, whose values are strings, integers, dictionaries
  or lists.
\<close>

datatype py_value =
    PyStr string
  | PyInt int
  | PyDict "(string \<times> py_value) list"
  | PyList "py_value list"

text \<open>\<open>EIP712_DOMAIN\<close> of types.py.\<close>

definition EIP712_DOMAIN :: "(string \<times> py_value) list" where
  "EIP712_DOMAIN = [(''name'', PyStr ''PrivBatch''), (''version'', PyStr ''1'')]"

definition type_field :: "string \<Rightarrow> string \<Rightarrow> py_value" where
  "type_field n t = PyDict [(''name'', PyStr n), (''type'', PyStr t)]"

definition build_eip712_message :: "LPIntent \<Rightarrow> int \<Rightarrow> string \<Rightarrow> py_value" where
  "build_eip712_message intent chain_id verifying_contract =
     (let domain = PyDict (EIP712_DOMAIN @
            [(''chainId'', PyInt chain_id),
             (''verifyingContract'', PyStr verifying_contract)]);
          message = PyDict
            [(''user'', PyStr (user intent)),
             (''pool'', PyDict
                [(''currency0'', PyStr (currency0 (pool intent))),
                 (''currency1'', PyStr (currency1 (pool intent))),
                 (''fee'', PyInt (fee (pool intent))),
                 (''tickSpacing'', PyInt (tick_spacing (pool intent))),
                 (''hooks'', PyStr (hooks (pool intent)))]),
             (''tickLower'', PyInt (tick_lower intent)),
             (''tickUpper'', PyInt (tick_upper intent)),
             (''amount'', PyInt (amount intent)),
             (''nonce'', PyInt (nonce intent)),
             (''deadline'', PyInt (deadline intent))];
          types = PyDict
            [(''PoolKey'', PyList
                [type_field ''currency0'' ''address'',
                 type_field ''currency1'' ''address'',
                 type_field ''fee'' ''uint24'',
                 type_field ''tickSpacing'' ''int24'',
                 type_field ''hooks'' ''address'']),
             (''LPIntent'', PyList
                [type_field ''user'' ''address'',
                 type_field ''pool'' ''PoolKey'',
                 type_field ''tickLower'' ''int24'',
                 type_field ''tickUpper'' ''int24'',
                 type_field ''amount'' ''uint256'',
                 type_field ''nonce'' ''uint256'',
                 type_field ''deadline'' ''uint256''])]
      in PyDict
           [(''domain'', domain),
            (''types'', types),
            (''primaryType'', PyStr ''LPIntent''),
            (''message'', message)])"

text \<open>
  The library calls are parameters: \<open>encode_typed_data\<close> turns the message into the
  signable value (of any type \<open>'m\<close>), \<open>sign_message\<close> signs it with a private key and
  returns the attributes \<open>r\<close>, \<open>s\<close> and \<open>v\<close> of the signed message, and
  \<open>recover_message\<close> returns the address recovered from a signable value and a
  signature. Each of them may raise.
\<close>

record SignedMessage =
  sig_r :: int
  sig_s :: int
  sig_v :: int

definition sign_intent ::
  "(py_value \<Rightarrow> py_error + 'm) \<Rightarrow> ('m \<Rightarrow> string \<Rightarrow> py_error + SignedMessage) \<Rightarrow>
   LPIntent \<Rightarrow> string \<Rightarrow> int \<Rightarrow> string \<Rightarrow> py_error + bytes" where
  "sign_intent encode_typed_data sign_message intent private_key chain_id verifying_contract =
     (let full_message = build_eip712_message intent chain_id verifying_contract in
      case encode_typed_data full_message of
        Inl e \<Rightarrow> Inl e
      | Inr signable \<Rightarrow>
          (case sign_message signable private_key of
             Inl e \<Rightarrow> Inl e
           | Inr signed_msg \<Rightarrow>
               (case int_to_bytes (sig_r signed_msg) 32 of
                  Inl e \<Rightarrow> Inl e
                | Inr rb \<Rightarrow>
                    (case int_to_bytes (sig_s signed_msg) 32 of
                       Inl e \<Rightarrow> Inl e
                     | Inr sb \<Rightarrow>
                         (case int_to_bytes (sig_v signed_msg) 1 of
                            Inl e \<Rightarrow> Inl e
                          | Inr vb \<Rightarrow> Inr (rb @ sb @ vb))))))"

definition verify_intent_signature ::
  "(py_value \<Rightarrow> py_error + 'm) \<Rightarrow> ('m \<Rightarrow> bytes \<Rightarrow> py_error + string) \<Rightarrow>
   LPIntent \<Rightarrow> bytes \<Rightarrow> int \<Rightarrow> string \<Rightarrow> py_error + string" where
  "verify_intent_signature encode_typed_data recover_message intent signature chain_id
       verifying_contract =
     (let full_message = build_eip712_message intent chain_id verifying_contract in
      case encode_typed_data full_message of
        Inl e \<Rightarrow> Inl e
      | Inr signable \<Rightarrow> recover_message signable signature)"

section \<open>optimizer.py: ticks and ranges\<close>

subsection \<open>Floats\<close>

text \<open>
  Python floats are IEEE 754 doubles: a finite value, an infinity or NaN. A finite
  double is written as the real number it stands for; the sign of a zero is not
  modelled, and no operation below depends on it.

  A double has 53 significant bits and its exponent is at least \<open>-1022\<close>. \<open>expo x\<close> is
  the exponent of the binade of \<open>x\<close>, \<open>ulp x\<close> the distance between neighbouring doubles
  there, and \<open>rnd x\<close> the multiple of \<open>ulp x\<close> nearest to \<open>x\<close>, the one with the even
  multiplier if two are equally near: the rounding of every arithmetic operation and of
  every literal. \<open>fround\<close> is \<open>rnd\<close> with the overflow to an infinity, which happens when
  the rounded magnitude reaches \<open>2 ^ 1024\<close>.
\<close>

datatype pyfloat = Fin real | PInf | NInf | NaN

definition expo :: "real \<Rightarrow> int" where
  "expo x = (if \<bar>x\<bar> < 2 powr (- 1022) then - 1022 else \<lfloor>log 2 \<bar>x\<bar>\<rfloor>)"

definition ulp :: "real \<Rightarrow> real" where
  "ulp x = 2 powr (of_int (expo x) - 52)"

definition round_half_even :: "real \<Rightarrow> int" where
  "round_half_even y =
     (let f = \<lfloor>y\<rfloor>; d = y - of_int f
      in if d < 1 / 2 then f
         else if 1 / 2 < d then f + 1
         else if even f then f else f + 1)"

definition rnd :: "real \<Rightarrow> real" where
  "rnd x = of_int (round_half_even (x / ulp x)) * ulp x"

definition fround :: "real \<Rightarrow> pyfloat" where
  "fround x =
     (let y = rnd x
      in if 2 ^ 1024 \<le> y then PInf
         else if y \<le> - (2 ^ 1024) then NInf
         else Fin y)"

text \<open>The comparison \<open>x <= 0\<close>; every comparison with NaN is false.\<close>

fun fle0 :: "pyfloat \<Rightarrow> bool" where
  "fle0 (Fin x) = (x \<le> 0)"
| "fle0 NInf = True"
| "fle0 PInf = False"
| "fle0 NaN = False"

fun fneg :: "pyfloat \<Rightarrow> pyfloat" where
  "fneg (Fin x) = Fin (- x)"
| "fneg PInf = NInf"
| "fneg NInf = PInf"
| "fneg NaN = NaN"

fun fsign :: "pyfloat \<Rightarrow> int" where
  "fsign (Fin x) = (if 0 < x then 1 else if x < 0 then - 1 else 0)"
| "fsign PInf = 1"
| "fsign NInf = - 1"
| "fsign NaN = 0"

definition inf_of_sign :: "int \<Rightarrow> pyfloat" where
  "inf_of_sign s = (if 0 < s then PInf else if s < 0 then NInf else NaN)"

text \<open>
  \<open>x * y\<close>: the rounded product of two finite values; NaN if an operand is NaN; an
  infinity times zero is NaN, and times anything else the infinity of the product of the
  signs.
\<close>

fun fmul :: "pyfloat \<Rightarrow> pyfloat \<Rightarrow> pyfloat" where
  "fmul (Fin a) (Fin b) = fround (a * b)"
| "fmul NaN y = NaN"
| "fmul x NaN = NaN"
| "fmul x y = inf_of_sign (fsign x * fsign y)"

text \<open>
  \<open>x / y\<close>: a zero divisor raises \<open>ZeroDivisionError\<close>; otherwise the rounded quotient
  of two finite values, NaN if an operand is NaN, an infinity over an infinity is NaN, a
  finite value over an infinity is zero.
\<close>

fun fdiv :: "pyfloat \<Rightarrow> pyfloat \<Rightarrow> py_error + pyfloat" where
  "fdiv x (Fin b) =
     (if b = 0 then Inl ZeroDivisionError
      else case x of
             Fin a \<Rightarrow> Inr (fround (a / b))
           | NaN \<Rightarrow> Inr NaN
           | _ \<Rightarrow> Inr (inf_of_sign (fsign x * fsign (Fin b))))"
| "fdiv NaN y = Inr NaN"
| "fdiv x NaN = Inr NaN"
| "fdiv (Fin a) y = Inr (Fin 0)"
| "fdiv x y = Inr NaN"

subsection \<open>The \<open>math\<close> module\<close>

text \<open>
  \<open>math.exp\<close> and \<open>math.log\<close> call the C library, whose code is not in the repository
  and whose results differ between platforms in the last bit. The library is therefore a
  parameter \<open>m\<close>: \<open>lib_exp m x\<close> and \<open>lib_log m x\<close> are the values it returns. What is
  known of it is that a result is a double at most one \<open>ulp\<close> away from the exact value;
  \<open>libm_value\<close> takes the library's value if it is one, and the correctly rounded value
  otherwise. The C standard fixes \<open>exp(0) = 1\<close> and \<open>log(1) = 0\<close>. Every theorem below
  holds for all \<open>m\<close>.

  \<open>math.exp\<close> raises \<open>OverflowError\<close> when the result of a finite argument is an
  infinity, and returns the (possibly zero) result when it underflows. \<open>math.log\<close>
  raises \<open>ValueError\<close> for an argument that is not positive. \<open>math.floor\<close> raises
  \<open>OverflowError\<close> for an infinity and \<open>ValueError\<close> for NaN.
\<close>

record libm =
  lib_exp :: "real \<Rightarrow> real"
  lib_log :: "real \<Rightarrow> real"

definition libm_value :: "real \<Rightarrow> real \<Rightarrow> real" where
  "libm_value exact l =
     (if rnd l = l \<and> \<bar>l - exact\<bar> \<le> ulp exact then l else rnd exact)"

fun math_exp :: "libm \<Rightarrow> pyfloat \<Rightarrow> py_error + pyfloat" where
  "math_exp m (Fin x) =
     (let y = (if x = 0 then 1 else libm_value (exp x) (lib_exp m x))
      in if 2 ^ 1024 \<le> y then Inl OverflowError else Inr (Fin y))"
| "math_exp m PInf = Inr PInf"
| "math_exp m NInf = Inr (Fin 0)"
| "math_exp m NaN = Inr NaN"

fun math_log :: "libm \<Rightarrow> pyfloat \<Rightarrow> py_error + pyfloat" where
  "math_log m (Fin x) =
     (if x \<le> 0 then Inl ValueError
      else Inr (Fin (if x = 1 then 0 else libm_value (ln x) (lib_log m x))))"
| "math_log m PInf = Inr PInf"
| "math_log m NInf = Inl ValueError"
| "math_log m NaN = Inr NaN"

fun math_floor :: "pyfloat \<Rightarrow> py_error + int" where
  "math_floor (Fin x) = Inr \<lfloor>x\<rfloor>"
| "math_floor PInf = Inl OverflowError"
| "math_floor NInf = Inl OverflowError"
| "math_floor NaN = Inl ValueError"

subsection \<open>\<open>price_to_tick\<close>, \<open>round_tick\<close> and \<open>compute_optimal_range\<close>\<close>

text \<open>The literal \<open>1.0001\<close> is the double nearest to \<open>10001 / 10000\<close>.\<close>

definition price_to_tick :: "libm \<Rightarrow> pyfloat \<Rightarrow> py_error + int" where
  "price_to_tick m price =
     (if fle0 price then Inl ValueError
      else case math_log m price of
             Inl e \<Rightarrow> Inl e
           | Inr a \<Rightarrow>
               (case math_log m (Fin (rnd (10001 / 10000))) of
                  Inl e \<Rightarrow> Inl e
                | Inr b \<Rightarrow>
                    (case fdiv a b of
                       Inl e \<Rightarrow> Inl e
                     | Inr q \<Rightarrow> math_floor q)))"

text \<open>
  \<open>round_tick\<close>: Python's \<open>//\<close> rounds towards minus infinity and raises on a zero
  divisor. The parameter \<open>tick_spacing\<close> of the source is called \<open>spacing\<close> here and
  below, because \<open>tick_spacing\<close> is already the field of \<open>PoolKey\<close>.
\<close>

definition round_tick :: "int \<Rightarrow> int \<Rightarrow> py_error + int" where
  "round_tick tick spacing =
     (if spacing = 0 then Inl ZeroDivisionError else Inr ((tick div spacing) * spacing))"

text \<open>
  \<open>compute_optimal_range\<close>. The argument \<open>volatility\<close> is called \<open>volatility0\<close>
  and \<open>volatility\<close> is its value after the assignment of the minimum \<open>0.01\<close>, the
  double nearest to \<open>1 / 100\<close>; \<open>center_tick\<close> is computed, and may raise, although it is
  not used; \<open>upper'\<close> is \<open>tick_upper\<close> after the last assignment.
\<close>

definition compute_optimal_range ::
  "libm \<Rightarrow> pyfloat \<Rightarrow> pyfloat \<Rightarrow> pyfloat \<Rightarrow> int \<Rightarrow> py_error + int \<times> int" where
  "compute_optimal_range m current_price volatility0 k_multiplier spacing =
     (let volatility = (if fle0 volatility0 then Fin (rnd (1 / 100)) else volatility0) in
      case price_to_tick m current_price of
        Inl e \<Rightarrow> Inl e
      | Inr center_tick \<Rightarrow>
      (case math_exp m (fmul (fneg k_multiplier) volatility) of
        Inl e \<Rightarrow> Inl e
      | Inr e_lower \<Rightarrow>
      (let price_lower = fmul current_price e_lower in
       case math_exp m (fmul k_multiplier volatility) of
        Inl e \<Rightarrow> Inl e
      | Inr e_upper \<Rightarrow>
      (let price_upper = fmul current_price e_upper in
       case price_to_tick m price_lower of
        Inl e \<Rightarrow> Inl e
      | Inr t_lower \<Rightarrow>
      (case round_tick t_lower spacing of
        Inl e \<Rightarrow> Inl e
      | Inr lower \<Rightarrow>
      (case price_to_tick m price_upper of
        Inl e \<Rightarrow> Inl e
      | Inr t_upper \<Rightarrow>
      (case round_tick t_upper spacing of
        Inl e \<Rightarrow> Inl e
      | Inr r_upper \<Rightarrow>
      (let upper = r_upper + spacing;
           upper' = (if lower \<ge> upper then lower + spacing else upper)
       in Inr (lower, upper')))))))))"

section \<open>Functions that describe the results\<close>

text \<open>
  The functions of this section are not part of the program. They describe what the
  program computes, and the lemmas of the following sections relate them to it.
\<close>

subsection \<open>The next layer of the tree\<close>

text \<open>
  The next layer as a function of the current one, by recursion on the list: the two
  leading nodes are hashed together, a single remaining node is kept. The loop
  \<open>build_for\<close> computes it (\<open>build_for_pair_up\<close>).
\<close>

fun pair_up :: "(bytes \<Rightarrow> bytes) \<Rightarrow> bytes list \<Rightarrow> bytes list" where
  "pair_up keccak [] = []"
| "pair_up keccak [x] = [x]"
| "pair_up keccak (x # y # xs) = hash_pair keccak x y # pair_up keccak xs"

subsection \<open>The typed-data schema as the specification words it\<close>

text \<open>
  The two type signatures, and the encodings of the fields: an address is its 20 bytes
  left-padded to 32; \<open>uint24\<close> is zero-extended and \<open>int24\<close> sign-extended from its three
  bytes to 32 bytes, big-endian; \<open>uint256\<close> is 32 bytes big-endian; a nested struct is
  its own struct hash.
\<close>

definition spec_PoolKey_signature :: string where
  "spec_PoolKey_signature =
     ''PoolKey(address currency0,address currency1,uint24 fee,int24 tickSpacing,address hooks)''"

definition spec_LPIntent_signature :: string where
  "spec_LPIntent_signature =
     ''LPIntent(address user,PoolKey pool,int24 tickLower,int24 tickUpper,uint256 amount,uint256 nonce,uint256 deadline)''"

definition spec_enc_address :: "bytes \<Rightarrow> bytes" where
  "spec_enc_address a = replicate 12 0 @ a"

definition spec_enc_uint24 :: "int \<Rightarrow> bytes" where
  "spec_enc_uint24 n = replicate 29 0 @ be_bytes 3 n"

definition spec_enc_int24 :: "int \<Rightarrow> bytes" where
  "spec_enc_int24 n = replicate 29 (if n < 0 then 255 else 0) @ be_bytes 3 (n mod 2 ^ 24)"

definition spec_enc_uint256 :: "int \<Rightarrow> bytes" where
  "spec_enc_uint256 n = be_bytes 32 n"

definition spec_PoolKey_words :: "(bytes \<Rightarrow> bytes) \<Rightarrow> bytes \<Rightarrow> bytes \<Rightarrow> int \<Rightarrow> int \<Rightarrow> bytes \<Rightarrow> bytes list" where
  "spec_PoolKey_words keccak c0 c1 f ts h =
     [keccak (utf8 spec_PoolKey_signature),
      spec_enc_address c0, spec_enc_address c1,
      spec_enc_uint24 f, spec_enc_int24 ts, spec_enc_address h]"

definition spec_hashPoolKey :: "(bytes \<Rightarrow> bytes) \<Rightarrow> bytes \<Rightarrow> bytes \<Rightarrow> int \<Rightarrow> int \<Rightarrow> bytes \<Rightarrow> bytes" where
  "spec_hashPoolKey keccak c0 c1 f ts h = keccak (concat (spec_PoolKey_words keccak c0 c1 f ts h))"

definition spec_LPIntent_words ::
  "(bytes \<Rightarrow> bytes) \<Rightarrow> bytes \<Rightarrow> bytes \<Rightarrow> int \<Rightarrow> int \<Rightarrow> int \<Rightarrow> int \<Rightarrow> int \<Rightarrow> bytes list" where
  "spec_LPIntent_words keccak u pool_hash tlo thi am no dl =
     [keccak (utf8 (spec_LPIntent_signature @ spec_PoolKey_signature)),
      spec_enc_address u, pool_hash,
      spec_enc_int24 tlo, spec_enc_int24 thi,
      spec_enc_uint256 am, spec_enc_uint256 no, spec_enc_uint256 dl]"

definition spec_hashIntent ::
  "(bytes \<Rightarrow> bytes) \<Rightarrow> bytes \<Rightarrow> bytes \<Rightarrow> int \<Rightarrow> int \<Rightarrow> int \<Rightarrow> int \<Rightarrow> int \<Rightarrow> bytes" where
  "spec_hashIntent keccak u pool_hash tlo thi am no dl =
     keccak (concat (spec_LPIntent_words keccak u pool_hash tlo thi am no dl))"

subsection \<open>The outcome of the range computation\<close>

text \<open>
  A double, as a value of the model: a finite value is one that rounding leaves
  unchanged and whose magnitude is below \<open>2 ^ 1024\<close>.
\<close>

definition is_float :: "pyfloat \<Rightarrow> bool" where
  "is_float p = (case p of Fin x \<Rightarrow> rnd x = x \<and> \<bar>x\<bar> < 2 ^ 1024 | _ \<Rightarrow> True)"

text \<open>
  \<open>price_to_tick\<close> returns for the finite positive prices. For every other float it
  raises \<open>tick_error\<close>: \<open>OverflowError\<close>, from \<open>math.floor\<close>, for the positive infinity,
  and \<open>ValueError\<close>, from the test of the sign or from \<open>math.floor\<close>, for zero, a
  negative value and NaN. \<open>tick_of\<close> is the tick where it returns.
\<close>

definition finite_pos :: "pyfloat \<Rightarrow> bool" where
  "finite_pos q = (case q of Fin x \<Rightarrow> 0 < x | _ \<Rightarrow> False)"

definition tick_error :: "pyfloat \<Rightarrow> py_error" where
  "tick_error q = (if q = PInf then OverflowError else ValueError)"

definition tick_of :: "libm \<Rightarrow> pyfloat \<Rightarrow> int" where
  "tick_of m q = (case price_to_tick m q of Inr t \<Rightarrow> t | Inl e \<Rightarrow> 0)"

text \<open>The volatility after the assignment of the minimum.\<close>

definition clamped :: "pyfloat \<Rightarrow> pyfloat" where
  "clamped v = (if fle0 v then Fin (rnd (1 / 100)) else v)"

text \<open>The two ticks rounded to the tick spacing, as the last lines of \<open>compute_optimal_range\<close> do.\<close>

definition rounded_range :: "int \<Rightarrow> int \<Rightarrow> int \<Rightarrow> int \<times> int" where
  "rounded_range t_lower t_upper s =
     (let lo = (t_lower div s) * s; up = (t_upper div s) * s + s
      in (lo, if up \<le> lo then lo + s else up))"

section \<open>Properties of the tree\<close>

subsection \<open>The order on bytes and the pair hash\<close>

lemma bytes_le_refl: "bytes_le a a"
  by (induction a) auto

lemma bytes_le_total: "bytes_le a b \<or> bytes_le b a"
  by (induction a b rule: bytes_le.induct) auto

lemma bytes_le_Nil_right [simp]: "bytes_le ys [] \<longleftrightarrow> ys = []"
  by (cases ys) auto

lemma bytes_le_antisym: "bytes_le a b \<Longrightarrow> bytes_le b a \<Longrightarrow> a = b"
  by (induction a b rule: bytes_le.induct) (auto split: if_splits)

lemma bytes_le_trans: "bytes_le a b \<Longrightarrow> bytes_le b c \<Longrightarrow> bytes_le a c"
proof (induction a b arbitrary: c rule: bytes_le.induct)
  case (1 ys)
  then show ?case by simp
next
  case (2 x xs)
  then show ?case by simp
next
  case (3 x xs y ys)
  then show ?case by (cases c) (auto split: if_splits)
qed

lemma hash_pair_commute: "hash_pair keccak a b = hash_pair keccak b a"
  using bytes_le_total [of a b] bytes_le_antisym [of a b]
  by (auto simp: hash_pair_def)

lemma build_for_pair_up:
  "build_for keccak layer i acc = acc @ pair_up keccak (drop i layer)"
proof (induction keccak layer i acc rule: build_for.induct)
  case (1 keccak layer i acc)
  show ?case
  proof (cases "i < length layer")
    case False
    then show ?thesis by (subst build_for.simps) simp
  next
    case True
    note lt = True
    show ?thesis
    proof (cases "i + 1 < length layer")
      case True
      have d: "drop i layer = layer ! i # layer ! (i + 1) # drop (i + 2) layer"
        using True lt by (metis Cons_nth_drop_Suc Suc_eq_plus1 add_2_eq_Suc')
      show ?thesis
        using "1.IH" [OF lt] True lt
        by (subst build_for.simps) (simp add: d)
    next
      case False
      then have e: "drop (i + 2) layer = []" by simp
      have d: "drop i layer = [layer ! i]"
        using False lt by (metis Cons_nth_drop_Suc Suc_eq_plus1 drop_all not_less)
      show ?thesis
        using "1.IH" [OF lt] False lt
        by (subst build_for.simps) (simp add: d e)
    qed
  qed
qed

lemma length_pair_up: "length (pair_up keccak xs) = (length xs + 1) div 2"
  by (induction keccak xs rule: pair_up.induct) auto

lemma pair_up_nth:
  "2 * j + 1 < length xs \<Longrightarrow>
   pair_up keccak xs ! j = hash_pair keccak (xs ! (2 * j)) (xs ! (2 * j + 1))"
proof (induction keccak xs arbitrary: j rule: pair_up.induct)
  case (3 keccak x y xs)
  then show ?case by (cases j) auto
qed auto

lemma pair_up_carry:
  "odd (length xs) \<Longrightarrow> pair_up keccak xs ! (length xs div 2) = xs ! (length xs - 1)"
proof (induction keccak xs rule: pair_up.induct)
  case (3 keccak x y xs)
  then have "xs \<noteq> []" by auto
  with 3 show ?case by (cases xs) auto
qed auto

subsection \<open>The layers and the proof path\<close>

lemma build_while_append:
  "build_while keccak layer (acc @ lys) = acc @ build_while keccak layer lys"
proof (induction keccak layer lys arbitrary: acc rule: build_while.induct)
  case (1 keccak layer lys)
  show ?case
  proof (cases "length layer > 1")
    case True
    show ?thesis
      using "1.IH" [OF True refl, of acc] True
      by (subst (1 2) build_while.simps) (simp add: Let_def)
  next
    case False
    then show ?thesis by (subst (1 2) build_while.simps) simp
  qed
qed

lemma build_while_step:
  "length layer > 1 \<Longrightarrow>
   build_while keccak layer [layer] =
     layer # build_while keccak (pair_up keccak layer) [pair_up keccak layer]"
  using build_while_append [of keccak "pair_up keccak layer" "[layer]" "[pair_up keccak layer]"]
  by (subst build_while.simps) (simp add: build_for_pair_up Let_def)

lemma build_while_stop:
  "\<not> length layer > 1 \<Longrightarrow> build_while keccak layer [layer] = [layer]"
  by (subst build_while.simps) simp

lemma build_while_not_Nil [simp]: "build_while keccak layer [layer] \<noteq> []"
  by (cases "length layer > 1") (simp_all add: build_while_step build_while_stop)

lemma py_index_nat: "i < length xs \<Longrightarrow> py_index xs (int i) = Inr (xs ! i)"
  by (simp add: py_index_def)

lemma sibling_right:
  assumes "even i" "i + 1 < length layer"
  shows "hash_pair keccak (layer ! i) (layer ! (i + 1)) = pair_up keccak layer ! (i div 2)"
proof -
  from assms obtain j where j: "i = 2 * j" by (auto elim: evenE)
  with assms show ?thesis by (simp add: pair_up_nth)
qed

lemma sibling_left:
  assumes "odd i" "i < length layer"
  shows "hash_pair keccak (layer ! i) (layer ! (i - 1)) = pair_up keccak layer ! (i div 2)"
proof -
  from assms obtain j where j: "i = 2 * j + 1" by (auto elim: oddE)
  with assms have "pair_up keccak layer ! j = hash_pair keccak (layer ! (2 * j)) (layer ! (2 * j + 1))"
    by (simp add: pair_up_nth)
  with j show ?thesis by (simp add: hash_pair_commute)
qed

lemma carried:
  assumes "even i" "i < length layer" "\<not> i + 1 < length layer"
  shows "layer ! i = pair_up keccak layer ! (i div 2)"
proof -
  from assms have l: "length layer = i + 1" by simp
  with assms have "odd (length layer)" by simp
  have "(i + 1) div 2 = i div 2" using assms(1) by presburger
  with pair_up_carry [OF \<open>odd (length layer)\<close>, of keccak] l show ?thesis by simp
qed

lemma get_proof_loop_tower:
  "i < length layer \<Longrightarrow>
   \<exists>path. get_proof_loop (butlast (build_while keccak layer [layer])) (int i) pf = Inr (pf @ path)
        \<and> verify_loop keccak (layer ! i) path = last (build_while keccak layer [layer]) ! 0
        \<and> length (last (build_while keccak layer [layer])) = 1"
proof (induction "length layer" arbitrary: layer i pf rule: less_induct)
  case less
  show ?case
  proof (cases "length layer > 1")
    case False
    with less.prems have "length layer = 1" "i = 0" by auto
    then show ?thesis by (simp add: build_while_stop)
  next
    case True
    let ?nl = "pair_up keccak layer"
    have len: "length ?nl < length layer" using True by (simp add: length_pair_up)
    have i2: "i div 2 < length ?nl" using less.prems by (simp add: length_pair_up)
    have tw: "build_while keccak layer [layer] = layer # build_while keccak ?nl [?nl]"
      using True by (rule build_while_step)
    have bl: "butlast (build_while keccak layer [layer])
              = layer # butlast (build_while keccak ?nl [?nl])"
      by (simp add: tw)
    have la: "last (build_while keccak layer [layer]) = last (build_while keccak ?nl [?nl])"
      by (simp add: tw)
    have idx: "int i div 2 = int (i div 2)" by simp
    consider (right) "even i" "i + 1 < length layer"
      | (carry) "even i" "\<not> i + 1 < length layer"
      | (left) "odd i" by blast
    then show ?thesis
    proof cases
      case right
      from less.hyps [OF len i2, of "pf @ [layer ! (i + 1)]"]
      obtain path where p: "get_proof_loop (butlast (build_while keccak ?nl [?nl])) (int (i div 2))
            (pf @ [layer ! (i + 1)]) = Inr ((pf @ [layer ! (i + 1)]) @ path)"
          "verify_loop keccak (?nl ! (i div 2)) path = last (build_while keccak ?nl [?nl]) ! 0"
          "length (last (build_while keccak ?nl [?nl])) = 1" by blast
      have ix: "py_index layer (int i + 1) = Inr (layer ! (i + 1))"
        using py_index_nat [of "i + 1" layer] right by (simp add: add.commute)
      have "get_proof_loop (butlast (build_while keccak layer [layer])) (int i) pf
            = Inr (pf @ (layer ! (i + 1) # path))"
        using right p(1) ix unfolding bl by (simp add: Let_def idx del: of_nat_add)
      moreover have "verify_loop keccak (layer ! i) (layer ! (i + 1) # path)
            = last (build_while keccak layer [layer]) ! 0"
        using p(2) sibling_right [OF right, of keccak] by (simp add: la)
      ultimately show ?thesis using p(3) la by metis
    next
      case carry
      from less.hyps [OF len i2, of pf]
      obtain path where p: "get_proof_loop (butlast (build_while keccak ?nl [?nl])) (int (i div 2))
            pf = Inr (pf @ path)"
          "verify_loop keccak (?nl ! (i div 2)) path = last (build_while keccak ?nl [?nl]) ! 0"
          "length (last (build_while keccak ?nl [?nl])) = 1" by blast
      have "get_proof_loop (butlast (build_while keccak layer [layer])) (int i) pf
            = Inr (pf @ path)"
        using carry p(1) unfolding bl by (simp add: Let_def idx del: of_nat_add)
      moreover have "verify_loop keccak (layer ! i) path
            = last (build_while keccak layer [layer]) ! 0"
        using p(2) carried [OF carry(1) less.prems carry(2), of keccak] by (simp add: la)
      ultimately show ?thesis using p(3) la by metis
    next
      case left
      then have ipos: "i > 0" by (cases i) auto
      from less.hyps [OF len i2, of "pf @ [layer ! (i - 1)]"]
      obtain path where p: "get_proof_loop (butlast (build_while keccak ?nl [?nl])) (int (i div 2))
            (pf @ [layer ! (i - 1)]) = Inr ((pf @ [layer ! (i - 1)]) @ path)"
          "verify_loop keccak (?nl ! (i div 2)) path = last (build_while keccak ?nl [?nl]) ! 0"
          "length (last (build_while keccak ?nl [?nl])) = 1" by blast
      have ix: "py_index layer (int i - 1) = Inr (layer ! (i - 1))"
        using py_index_nat [of "i - 1" layer] less.prems ipos by (simp add: of_nat_diff)
      have md: "int i mod 2 \<noteq> 0" using left by presburger
      have "get_proof_loop (butlast (build_while keccak layer [layer])) (int i) pf
            = Inr (pf @ (layer ! (i - 1) # path))"
        using left p(1) ix md unfolding bl by (simp add: Let_def idx)
      moreover have "verify_loop keccak (layer ! i) (layer ! (i - 1) # path)
            = last (build_while keccak layer [layer]) ! 0"
        using p(2) sibling_left [OF left less.prems, of keccak] by (simp add: la)
      ultimately show ?thesis using p(3) la by metis
    qed
  qed
qed

subsection \<open>Construction, root and proofs\<close>

lemma init_layers:
  "lvs \<noteq> [] \<Longrightarrow>
   MerkleTree_init keccak lvs =
     Inr \<lparr>leaves = lvs, layers = build_while keccak lvs [lvs]\<rparr>"
  by (simp add: MerkleTree_init_def build_def)

lemma py_index_last: "xs \<noteq> [] \<Longrightarrow> py_index xs (- 1) = Inr (last xs)"
  by (cases xs rule: rev_cases) (auto simp: py_index_def nat_add_distrib)

lemma py_index_0: "xs \<noteq> [] \<Longrightarrow> py_index xs 0 = Inr (xs ! 0)"
  by (simp add: py_index_def)

lemma root_built:
  assumes "lvs \<noteq> []"
  shows "root \<lparr>leaves = lvs, layers = build_while keccak lvs [lvs]\<rparr>
         = Inr (last (build_while keccak lvs [lvs]) ! 0)"
proof -
  from assms have "0 < length lvs" by simp
  from get_proof_loop_tower [OF this, of keccak "[]"]
  have "length (last (build_while keccak lvs [lvs])) = 1" by blast
  then have "last (build_while keccak lvs [lvs]) \<noteq> []" by auto
  then show ?thesis by (simp add: root_def py_index_last py_index_0)
qed

text \<open>
  C1. For every non-empty list of leaves and every index \<open>i\<close> below the number of
  leaves, the construction succeeds, \<open>get_proof i\<close> and \<open>root\<close> return, and
  \<open>verify\<close> of the \<open>i\<close>-th leaf with that proof against that root is true. This
  holds for every hash function \<open>keccak\<close> and for leaves of any length, 32-byte leaves
  included.
\<close>

theorem merkle_proof_verifies:
  assumes "lvs \<noteq> []" and "i < length lvs"
  shows "\<exists>t pf rt. MerkleTree_init keccak lvs = Inr t
           \<and> get_proof t (int i) = Inr pf
           \<and> root t = Inr rt
           \<and> verify keccak t (lvs ! i) pf rt"
proof -
  let ?t = "\<lparr>leaves = lvs, layers = build_while keccak lvs [lvs]\<rparr>"
  from get_proof_loop_tower [OF assms(2), of keccak "[]"]
  obtain path where p:
    "get_proof_loop (butlast (build_while keccak lvs [lvs])) (int i) [] = Inr path"
    "verify_loop keccak (lvs ! i) path = last (build_while keccak lvs [lvs]) ! 0"
    by auto
  have "MerkleTree_init keccak lvs = Inr ?t"
    using assms(1) by (rule init_layers)
  moreover have "get_proof ?t (int i) = Inr path"
    using assms(2) p(1) by (simp add: get_proof_def)
  moreover have "root ?t = Inr (last (build_while keccak lvs [lvs]) ! 0)"
    using assms(1) by (rule root_built)
  moreover have "verify keccak ?t (lvs ! i) path (last (build_while keccak lvs [lvs]) ! 0)"
    using p(2) by (simp add: verify_def)
  ultimately show ?thesis by blast
qed

theorem merkle_proof_verifies_witness:
  "[[1], [2], [3]] \<noteq> ([] :: bytes list) \<and> 2 < length [[1], [2], [3 :: byte]]
   \<and> (\<exists>t pf rt. MerkleTree_init (\<lambda>x. x) [[1], [2], [3]] = Inr t
           \<and> get_proof t (int 2) = Inr pf
           \<and> root t = Inr rt
           \<and> verify (\<lambda>x. x) t ([[1], [2], [3]] ! 2) pf rt)"
  using merkle_proof_verifies [of "[[1], [2], [3]]" 2 "\<lambda>x. x"] by simp

text \<open>
  C9. For a single-leaf list \<open>[L]\<close> the tree is built, its root is \<open>L\<close>,
  \<open>get_proof 0\<close> is the empty list, and \<open>verify L [] root\<close> is true.
\<close>

theorem single_leaf_tree:
  "\<exists>t. MerkleTree_init keccak [L] = Inr t
      \<and> root t = Inr L
      \<and> get_proof t 0 = Inr []
      \<and> verify keccak t L [] L"
proof -
  have "build_while keccak [L] [[L]] = [[L]]" by (simp add: build_while_stop)
  then have "MerkleTree_init keccak [L] = Inr \<lparr>leaves = [L], layers = [[L]]\<rparr>"
    by (simp add: init_layers)
  moreover have "root \<lparr>leaves = [L], layers = [[L]]\<rparr> = Inr L"
    by (simp add: root_def py_index_def)
  moreover have "get_proof \<lparr>leaves = [L], layers = [[L]]\<rparr> 0 = Inr []"
    by (simp add: get_proof_def)
  moreover have "verify keccak \<lparr>leaves = [L], layers = [[L]]\<rparr> L [] L"
    by (simp add: verify_def)
  ultimately show ?thesis by blast
qed

lemma build_while_hd: "build_while keccak layer [layer] ! 0 = layer"
  by (cases "length layer > 1") (simp_all add: build_while_step build_while_stop)

lemma build_while_layers:
  "l + 1 < length (build_while keccak layer [layer]) \<Longrightarrow>
   length (build_while keccak layer [layer] ! l) > 1 \<and>
   build_while keccak layer [layer] ! (l + 1)
     = pair_up keccak (build_while keccak layer [layer] ! l)"
proof (induction "length layer" arbitrary: layer l rule: less_induct)
  case less
  show ?case
  proof (cases "length layer > 1")
    case False
    with less.prems show ?thesis by (simp add: build_while_stop)
  next
    case True
    let ?nl = "pair_up keccak layer"
    have len: "length ?nl < length layer" using True by (simp add: length_pair_up)
    have tw: "build_while keccak layer [layer] = layer # build_while keccak ?nl [?nl]"
      using True by (rule build_while_step)
    show ?thesis
    proof (cases l)
      case 0
      then show ?thesis using True by (simp add: tw build_while_hd)
    next
      case (Suc l')
      with less.prems have "l' + 1 < length (build_while keccak ?nl [?nl])"
        by (simp add: tw)
      from less.hyps [OF len this] Suc show ?thesis by (simp add: tw)
    qed
  qed
qed

lemma build_while_last:
  "layer \<noteq> [] \<Longrightarrow> length (last (build_while keccak layer [layer])) = 1"
  using get_proof_loop_tower [of 0 layer keccak "[]"] by auto

lemma bytes_le_lexord:
  "bytes_le a b \<longleftrightarrow> a = b \<or> (map unat a, map unat b) \<in> lexord {(x, y). x < y}"
proof (induction a b rule: bytes_le.induct)
  case (1 ys)
  show ?case by (cases ys) auto
next
  case (2 x xs)
  show ?case by simp
next
  case (3 x xs y ys)
  then show ?case by (auto simp: word_less_nat_alt word_unat_eq_iff)
qed

text \<open>
  C8. The construction raises (\<open>ValueError\<close>, the empty-batch error) exactly when the
  leaf list is empty, and succeeds otherwise. On a tree so built, \<open>get_proof index\<close>
  raises \<open>IndexError\<close> exactly when \<open>index\<close> is outside \<open>[0, leafCount)\<close> and returns
  a proof otherwise; no subscript inside the loop raises. The object after a call of
  \<open>get_proof\<close> is the object before it, failing or not.
\<close>

theorem merkle_errors_exact:
  "(lvs = [] \<longrightarrow> MerkleTree_init keccak lvs = Inl ValueError) \<and>
   (lvs \<noteq> [] \<longrightarrow>
      (\<exists>t. MerkleTree_init keccak lvs = Inr t \<and> leaves t = lvs \<and>
        (\<forall>index.
           (if 0 \<le> index \<and> index < int (length lvs)
            then \<exists>pf. get_proof t index = Inr pf
            else get_proof t index = Inl IndexError)
           \<and> get_proof_call t index = (get_proof t index, t))))"
proof (intro conjI impI)
  assume "lvs = []"
  then show "MerkleTree_init keccak lvs = Inl ValueError"
    by (simp add: MerkleTree_init_def)
next
  assume ne: "lvs \<noteq> []"
  let ?t = "\<lparr>leaves = lvs, layers = build_while keccak lvs [lvs]\<rparr>"
  have "(if 0 \<le> index \<and> index < int (length lvs)
         then \<exists>pf. get_proof ?t index = Inr pf
         else get_proof ?t index = Inl IndexError)" for index
  proof (cases "0 \<le> index \<and> index < int (length lvs)")
    case True
    then have "nat index < length lvs" and ix: "int (nat index) = index" by auto
    from get_proof_loop_tower [OF this(1), of keccak "[]"] True ix
    show ?thesis by (auto simp: get_proof_def)
  next
    case False
    then show ?thesis by (auto simp: get_proof_def)
  qed
  then show "\<exists>t. MerkleTree_init keccak lvs = Inr t \<and> leaves t = lvs \<and>
        (\<forall>index.
           (if 0 \<le> index \<and> index < int (length lvs)
            then \<exists>pf. get_proof t index = Inr pf
            else get_proof t index = Inl IndexError)
           \<and> get_proof_call t index = (get_proof t index, t))"
    using init_layers [OF ne, of keccak] by (simp add: get_proof_call_def)
qed

theorem merkle_errors_exact_witness:
  "MerkleTree_init (\<lambda>x. x) [] = Inl ValueError \<and>
   (\<exists>t. MerkleTree_init (\<lambda>x. x) [[1], [2]] = Inr t \<and> leaves t = [[1], [2]] \<and>
      (\<exists>pf. get_proof t 0 = Inr pf) \<and> (\<exists>pf. get_proof t 1 = Inr pf) \<and>
      get_proof t 2 = Inl IndexError \<and> get_proof t (- 1) = Inl IndexError \<and>
      get_proof_call t 2 = (Inl IndexError, t))"
proof -
  have "MerkleTree_init (\<lambda>x. x) [] = Inl ValueError"
    using merkle_errors_exact [of "[]" "\<lambda>x. x"] by simp
  moreover obtain t where t: "MerkleTree_init (\<lambda>x. x) [[1], [2]] = Inr t" "leaves t = [[1], [2]]"
    and ix: "\<And>index. (if 0 \<le> index \<and> index < 2
                    then \<exists>pf. get_proof t index = Inr pf
                    else get_proof t index = Inl IndexError)
                  \<and> get_proof_call t index = (get_proof t index, t)"
    using merkle_errors_exact [of "[[1], [2]]" "\<lambda>x. x"] by auto
  from ix [of 0] ix [of 1] ix [of 2] ix [of "- 1"]
  have "(\<exists>pf. get_proof t 0 = Inr pf) \<and> (\<exists>pf. get_proof t 1 = Inr pf) \<and>
      get_proof t 2 = Inl IndexError \<and> get_proof t (- 1) = Inl IndexError \<and>
      get_proof_call t 2 = (Inl IndexError, t)" by simp
  with t have "\<exists>t. MerkleTree_init (\<lambda>x. x) [[1], [2]] = Inr t \<and> leaves t = [[1], [2]] \<and>
      (\<exists>pf. get_proof t 0 = Inr pf) \<and> (\<exists>pf. get_proof t 1 = Inr pf) \<and>
      get_proof t 2 = Inl IndexError \<and> get_proof t (- 1) = Inl IndexError \<and>
      get_proof_call t 2 = (Inl IndexError, t)" by blast
  ultimately show ?thesis by blast
qed

text \<open>
  C2. For a non-empty leaf list, layer 0 is the leaf list; every layer that has a
  successor has more than one node, and its successor has one node per pair: node \<open>j\<close> is
  \<open>hash_pair\<close> of nodes \<open>2j\<close> and \<open>2j+1\<close> when both exist, and the last node of a layer of odd
  length is carried over unchanged as the last node of the successor. The last layer has
  exactly one node, which is the root. \<open>hash_pair a b\<close> is \<open>keccak\<close> of the two values
  concatenated in sorted order, where the order is the lexicographic order of the
  unsigned octets, and therefore does not depend on the order of its arguments.
\<close>

theorem build_layers_pairwise:
  assumes "lvs \<noteq> []"
  shows "\<exists>t. MerkleTree_init keccak lvs = Inr t
      \<and> layers t \<noteq> [] \<and> layers t ! 0 = lvs
      \<and> (\<forall>l. l + 1 < length (layers t) \<longrightarrow>
            1 < length (layers t ! l)
          \<and> length (layers t ! (l + 1)) = (length (layers t ! l) + 1) div 2
          \<and> (\<forall>j. 2 * j + 1 < length (layers t ! l) \<longrightarrow>
                layers t ! (l + 1) ! j
                  = hash_pair keccak (layers t ! l ! (2 * j)) (layers t ! l ! (2 * j + 1)))
          \<and> (odd (length (layers t ! l)) \<longrightarrow>
                layers t ! (l + 1) ! (length (layers t ! l) div 2)
                  = layers t ! l ! (length (layers t ! l) - 1)))
      \<and> length (last (layers t)) = 1
      \<and> root t = Inr (last (layers t) ! 0)
      \<and> (\<forall>a b. hash_pair keccak a b = keccak (if bytes_le a b then a @ b else b @ a)
              \<and> hash_pair keccak a b = hash_pair keccak b a
              \<and> (bytes_le a b \<longleftrightarrow>
                   a = b \<or> (map unat a, map unat b) \<in> lexord {(x, y). x < y}))"
proof -
  let ?T = "build_while keccak lvs [lvs]"
  let ?t = "\<lparr>leaves = lvs, layers = ?T\<rparr>"
  have step0: "1 < length (?T ! l)
          \<and> length (?T ! (l + 1)) = (length (?T ! l) + 1) div 2
          \<and> (\<forall>j. 2 * j + 1 < length (?T ! l) \<longrightarrow>
                ?T ! (l + 1) ! j = hash_pair keccak (?T ! l ! (2 * j)) (?T ! l ! (2 * j + 1)))
          \<and> (odd (length (?T ! l)) \<longrightarrow>
                ?T ! (l + 1) ! (length (?T ! l) div 2) = ?T ! l ! (length (?T ! l) - 1))"
    if "l + 1 < length ?T" for l
    using build_while_layers [OF that]
    by (simp add: length_pair_up pair_up_nth pair_up_carry)
  have step: "\<forall>l. l + 1 < length (layers ?t) \<longrightarrow>
            1 < length (layers ?t ! l)
          \<and> length (layers ?t ! (l + 1)) = (length (layers ?t ! l) + 1) div 2
          \<and> (\<forall>j. 2 * j + 1 < length (layers ?t ! l) \<longrightarrow>
                layers ?t ! (l + 1) ! j
                  = hash_pair keccak (layers ?t ! l ! (2 * j)) (layers ?t ! l ! (2 * j + 1)))
          \<and> (odd (length (layers ?t ! l)) \<longrightarrow>
                layers ?t ! (l + 1) ! (length (layers ?t ! l) div 2)
                  = layers ?t ! l ! (length (layers ?t ! l) - 1))"
    using step0 by simp
  have hp: "\<forall>a b. hash_pair keccak a b = keccak (if bytes_le a b then a @ b else b @ a)
              \<and> hash_pair keccak a b = hash_pair keccak b a
              \<and> (bytes_le a b \<longleftrightarrow>
                   a = b \<or> (map unat a, map unat b) \<in> lexord {(x, y). x < y})"
  proof (intro allI conjI)
    fix a b
    show "hash_pair keccak a b = keccak (if bytes_le a b then a @ b else b @ a)"
      by (simp add: hash_pair_def)
    show "hash_pair keccak a b = hash_pair keccak b a"
      by (rule hash_pair_commute)
    show "bytes_le a b \<longleftrightarrow>
            a = b \<or> (map unat a, map unat b) \<in> lexord {(x, y). x < y}"
      by (rule bytes_le_lexord)
  qed
  have init: "MerkleTree_init keccak lvs = Inr ?t"
    using assms by (rule init_layers)
  have ne: "layers ?t \<noteq> []" and hd0: "layers ?t ! 0 = lvs"
    by (simp_all add: build_while_hd)
  have top1: "length (last (layers ?t)) = 1"
    using assms by (simp add: build_while_last)
  have rt: "root ?t = Inr (last (layers ?t) ! 0)"
    using root_built [OF assms, of keccak] by simp
  show ?thesis
    by (intro exI [of _ ?t] conjI) (rule init ne hd0 step top1 rt hp)+
qed

theorem build_layers_pairwise_witness:
  "[[1], [2], [3]] \<noteq> ([] :: bytes list) \<and>
   (\<exists>t. MerkleTree_init (\<lambda>x. x) [[1], [2], [3]] = Inr t
      \<and> layers t = [[[1], [2], [3]], [[1, 2], [3]], [[1, 2, 3]]]
      \<and> root t = Inr [1, 2, 3])"
proof -
  obtain t where t: "MerkleTree_init (\<lambda>x. x) [[1], [2], [3]] = Inr t"
    "root t = Inr (last (layers t) ! 0)"
    using build_layers_pairwise [of "[[1], [2], [3]]" "\<lambda>x. x"] by auto
  have b: "build_for (\<lambda>x. x) [[1], [2], [3]] 0 [] = [[1, 2], [3]]"
    by (simp add: build_for_pair_up hash_pair_def)
  have c: "build_for (\<lambda>x. x) [[1, 2], [3]] 0 [] = [[1, 2, 3]]"
    by (simp add: build_for_pair_up hash_pair_def)
  have "build_while (\<lambda>x. x) [[1], [2], [3]] [[[1], [2], [3]]]
        = [[[1], [2], [3]], [[1, 2], [3]], [[1, 2, 3]]]"
    by (simp add: build_while.simps [of _ "[[1], [2], [3]]"] b
          build_while.simps [of _ "[[1, 2], [3]]"] c
          build_while.simps [of _ "[[1, 2, 3]]"])
  with t have "layers t = [[[1], [2], [3]], [[1, 2], [3]], [[1, 2, 3]]]"
    by (auto simp: MerkleTree_init_def build_def)
  with t show ?thesis by auto
qed






section \<open>Properties of the leaf hash\<close>

subsection \<open>Big-endian bytes\<close>

lemma length_be_bytes [simp]: "length (be_bytes len n) = len"
  by (induction len arbitrary: n) auto

lemma be_bytes_mod: "be_bytes len (n mod 256 ^ len) = be_bytes len n"
proof (induction len arbitrary: n)
  case 0
  show ?case by simp
next
  case (Suc len)
  have a: "n mod (256 * 256 ^ len) div 256 = (n div 256) mod 256 ^ len"
    by (simp add: zmod_zmult2_eq)
  have b: "n mod (256 * 256 ^ len) mod 256 = n mod 256"
    by (simp add: mod_mod_cancel)
  show ?case using Suc [of "n div 256"] by (simp add: a b)
qed

lemma be_bytes_split:
  "be_bytes (a + b) n = be_bytes a (n div 256 ^ b) @ be_bytes b n"
proof (induction b arbitrary: n)
  case 0
  show ?case by simp
next
  case (Suc b)
  have "n div 256 div 256 ^ b = n div (256 * 256 ^ b)"
    by (simp add: zdiv_zmult2_eq)
  with Suc [of "n div 256"] show ?case by simp
qed

lemma be_bytes_zero: "be_bytes len 0 = replicate len 0"
  by (induction len) (auto simp: replicate_append_same)

lemma be_bytes_minus_one: "be_bytes len (- 1) = replicate len 255"
  by (induction len) (auto simp: replicate_append_same)

lemma be_bytes_uint24:
  assumes "0 \<le> n" "n < 2 ^ 24"
  shows "be_bytes 32 n = spec_enc_uint24 n"
proof -
  have "n div 256 ^ 3 = 0" using assms by simp
  with be_bytes_split [of 29 3 n] show ?thesis
    by (simp add: spec_enc_uint24_def be_bytes_zero)
qed

lemma be_bytes_int24:
  assumes "- (2 ^ 23) \<le> n" "n < 2 ^ 23"
  shows "be_bytes 32 (n mod 2 ^ 256) = spec_enc_int24 n"
proof -
  have d: "n div 256 ^ 3 = (if n < 0 then - 1 else 0)"
    using assms by (auto simp: div_eq_minus1 zdiv_eq_0_iff intro: div_pos_neg_trivial)
  have "be_bytes 32 (n mod 2 ^ 256) = be_bytes 32 n"
    using be_bytes_mod [of 32 n] by simp
  also have "\<dots> = be_bytes 29 (n div 256 ^ 3) @ be_bytes 3 n"
    using be_bytes_split [of 29 3 n] by simp
  also have "\<dots> = be_bytes 29 (if n < 0 then - 1 else 0) @ be_bytes 3 n"
    by (simp only: d)
  also have "\<dots> = replicate 29 (if n < 0 then 255 else 0) @ be_bytes 3 n"
    by (simp add: be_bytes_zero be_bytes_minus_one)
  also have "be_bytes 3 n = be_bytes 3 (n mod 2 ^ 24)"
    using be_bytes_mod [of 3 n] by simp
  finally show ?thesis by (simp only: spec_enc_int24_def)
qed

subsection \<open>The leaf is the hash the schema prescribes\<close>

lemma intent_type_string:
  "''LPIntent(address user,PoolKey pool,int24 tickLower,int24 tickUpper,uint256 amount,uint256 nonce,uint256 deadline)PoolKey(address currency0,address currency1,uint24 fee,int24 tickSpacing,address hooks)''
   = spec_LPIntent_signature @ spec_PoolKey_signature"
  by (simp add: spec_LPIntent_signature_def spec_PoolKey_signature_def)

lemma encode_address:
  "to_canonical a = Inr bs \<Longrightarrow> length bs = 20 \<Longrightarrow>
   encode_single to_canonical Address (StrVal a) = Inr (spec_enc_address bs)"
  by (simp add: zpad_def spec_enc_address_def)

lemma encode_bytes32:
  "length bs = 32 \<Longrightarrow> encode_single to_canonical (Bytes 32) (BytesVal bs) = Inr bs"
  by (simp add: zpad_right_def)

lemma encode_uint24:
  "0 \<le> n \<Longrightarrow> n < 2 ^ 24 \<Longrightarrow>
   encode_single to_canonical (UInt 24) (IntVal n) = Inr (spec_enc_uint24 n)"
  using be_bytes_uint24 [of n] by simp

lemma encode_int24:
  "- (2 ^ 23) \<le> n \<Longrightarrow> n < 2 ^ 23 \<Longrightarrow>
   encode_single to_canonical (SInt 24) (IntVal n) = Inr (spec_enc_int24 n)"
  using be_bytes_int24 [of n] by simp

lemma encode_uint256:
  "0 \<le> n \<Longrightarrow> n < 2 ^ 256 \<Longrightarrow>
   encode_single to_canonical (UInt 256) (IntVal n) = Inr (spec_enc_uint256 n)"
  by (simp add: spec_enc_uint256_def)

lemma hash_pool_key_spec:
  assumes k32: "\<forall>x. length (keccak x) = 32"
    and c0: "to_canonical (currency0 pk) = Inr c0" "length c0 = 20"
    and c1: "to_canonical (currency1 pk) = Inr c1" "length c1 = 20"
    and h: "to_canonical (hooks pk) = Inr h" "length h = 20"
    and f: "0 \<le> fee pk" "fee pk < 2 ^ 24"
    and ts: "- (2 ^ 23) \<le> tick_spacing pk" "tick_spacing pk < 2 ^ 23"
  shows "hash_pool_key keccak to_canonical pk
         = Inr (spec_hashPoolKey keccak c0 c1 (fee pk) (tick_spacing pk) h)"
proof -
  have th: "encode_single to_canonical (Bytes 32)
              (BytesVal (keccak (utf8 spec_PoolKey_signature)))
            = Inr (keccak (utf8 spec_PoolKey_signature))"
    using k32 by (intro encode_bytes32) simp
  have s: "''PoolKey(address currency0,address currency1,uint24 fee,int24 tickSpacing,address hooks)''
           = spec_PoolKey_signature"
    by (simp add: spec_PoolKey_signature_def)
  show ?thesis
    unfolding hash_pool_key_def s Let_def
    by (simp add: th encode_address [of to_canonical "currency0 pk", OF c0]
          encode_address [of to_canonical "currency1 pk", OF c1]
          encode_address [of to_canonical "hooks pk", OF h]
          encode_uint24 [OF f] encode_int24 [OF ts]
          spec_hashPoolKey_def spec_PoolKey_words_def del: encode_single.simps)
qed

text \<open>
  C3. For an intent whose fields fit their types (the addresses are accepted by the
  library and have 20 bytes, the fee fits \<open>uint24\<close>, the ticks and the tick spacing fit
  \<open>int24\<close>, amount, nonce and deadline fit \<open>uint256\<close>), \<open>compute_leaf\<close> returns the
  \<open>keccak\<close> hash of eight 32-byte words: the hash of the \<open>LPIntent\<close> type signature
  followed by the \<open>PoolKey\<close> type signature, the user address, the struct hash of the
  pool key (which \<open>hash_pool_key\<close> returns, not the pool's fields), the two ticks, the
  amount, the nonce and the deadline, each encoded for its type. \<open>keccak\<close> is any function
  that returns 32 bytes.
\<close>

theorem compute_leaf_structured:
  assumes k32: "\<forall>x. length (keccak x) = 32"
    and u: "to_canonical (user i) = Inr u" "length u = 20"
    and c0: "to_canonical (currency0 (pool i)) = Inr c0" "length c0 = 20"
    and c1: "to_canonical (currency1 (pool i)) = Inr c1" "length c1 = 20"
    and h: "to_canonical (hooks (pool i)) = Inr h" "length h = 20"
    and f: "0 \<le> fee (pool i)" "fee (pool i) < 2 ^ 24"
    and ts: "- (2 ^ 23) \<le> tick_spacing (pool i)" "tick_spacing (pool i) < 2 ^ 23"
    and tlo: "- (2 ^ 23) \<le> tick_lower i" "tick_lower i < 2 ^ 23"
    and thi: "- (2 ^ 23) \<le> tick_upper i" "tick_upper i < 2 ^ 23"
    and am: "0 \<le> amount i" "amount i < 2 ^ 256"
    and no: "0 \<le> nonce i" "nonce i < 2 ^ 256"
    and dl: "0 \<le> deadline i" "deadline i < 2 ^ 256"
  shows "hash_pool_key keccak to_canonical (pool i)
           = Inr (spec_hashPoolKey keccak c0 c1 (fee (pool i)) (tick_spacing (pool i)) h)
       \<and> compute_leaf keccak to_canonical i
           = Inr (spec_hashIntent keccak u
                   (spec_hashPoolKey keccak c0 c1 (fee (pool i)) (tick_spacing (pool i)) h)
                   (tick_lower i) (tick_upper i) (amount i) (nonce i) (deadline i))
       \<and> list_all (\<lambda>w. length w = 32)
           (spec_LPIntent_words keccak u
              (spec_hashPoolKey keccak c0 c1 (fee (pool i)) (tick_spacing (pool i)) h)
              (tick_lower i) (tick_upper i) (amount i) (nonce i) (deadline i))"
proof (intro conjI)
  let ?ph = "spec_hashPoolKey keccak c0 c1 (fee (pool i)) (tick_spacing (pool i)) h"
  show ph: "hash_pool_key keccak to_canonical (pool i) = Inr ?ph"
    using k32 c0 c1 h f ts by (rule hash_pool_key_spec)
  have th: "encode_single to_canonical (Bytes 32)
              (BytesVal (keccak (utf8 (spec_LPIntent_signature @ spec_PoolKey_signature))))
            = Inr (keccak (utf8 (spec_LPIntent_signature @ spec_PoolKey_signature)))"
    using k32 by (intro encode_bytes32) simp
  have pw: "encode_single to_canonical (Bytes 32) (BytesVal ?ph) = Inr ?ph"
    using k32 by (intro encode_bytes32) (simp add: spec_hashPoolKey_def)
  show "compute_leaf keccak to_canonical i
           = Inr (spec_hashIntent keccak u ?ph
                   (tick_lower i) (tick_upper i) (amount i) (nonce i) (deadline i))"
    unfolding compute_leaf_def intent_type_string Let_def
    by (simp add: ph th pw encode_address [of to_canonical "user i", OF u] encode_int24 [OF tlo] encode_int24 [OF thi]
          encode_uint256 [OF am] encode_uint256 [OF no] encode_uint256 [OF dl]
          spec_hashIntent_def spec_LPIntent_words_def del: encode_single.simps)
  show "list_all (\<lambda>w. length w = 32)
           (spec_LPIntent_words keccak u ?ph
              (tick_lower i) (tick_upper i) (amount i) (nonce i) (deadline i))"
    using k32 u(2)
    by (simp add: spec_LPIntent_words_def spec_hashPoolKey_def spec_enc_address_def
          spec_enc_int24_def spec_enc_uint256_def)
qed

theorem compute_leaf_structured_witness:
  "compute_leaf (\<lambda>x. replicate 32 7) (\<lambda>a. Inr (replicate 20 1))
     \<lparr>user = ''0x0101010101010101010101010101010101010101'',
      pool = \<lparr>currency0 = ''0x0101010101010101010101010101010101010101'',
               currency1 = ''0x0101010101010101010101010101010101010101'',
               fee = 3000, tick_spacing = 60,
               hooks = ''0x0101010101010101010101010101010101010101''\<rparr>,
      tick_lower = - 887220, tick_upper = 887220,
      amount = 100, nonce = 0, deadline = 99999999999\<rparr>
   = Inr (spec_hashIntent (\<lambda>x. replicate 32 7) (replicate 20 1)
           (spec_hashPoolKey (\<lambda>x. replicate 32 7) (replicate 20 1) (replicate 20 1) 3000 60
              (replicate 20 1))
           (- 887220) 887220 100 0 99999999999)
   \<and> spec_hashIntent (\<lambda>x. replicate 32 7) (replicate 20 1)
           (spec_hashPoolKey (\<lambda>x. replicate 32 7) (replicate 20 1) (replicate 20 1) 3000 60
              (replicate 20 1))
           (- 887220) 887220 100 0 99999999999 = replicate 32 7"
  using compute_leaf_structured [where keccak = "\<lambda>x. replicate 32 7"
      and to_canonical = "\<lambda>a. Inr (replicate 20 1)"
      and u = "replicate 20 1" and ?c0.0 = "replicate 20 1" and ?c1.0 = "replicate 20 1"
      and h = "replicate 20 1"
      and i = "\<lparr>user = ''0x0101010101010101010101010101010101010101'',
      pool = \<lparr>currency0 = ''0x0101010101010101010101010101010101010101'',
               currency1 = ''0x0101010101010101010101010101010101010101'',
               fee = 3000, tick_spacing = 60,
               hooks = ''0x0101010101010101010101010101010101010101''\<rparr>,
      tick_lower = - 887220, tick_upper = 887220,
      amount = 100, nonce = 0, deadline = 99999999999\<rparr>"]
  by (simp add: spec_hashIntent_def)

section \<open>Properties of the signature\<close>

lemma be_int_snoc: "be_int (bs @ [b]) = be_int bs * 256 + uint b"
  by (simp add: be_int_def)

lemma be_int_be_bytes: "be_int (be_bytes len n) = n mod 256 ^ len"
proof (induction len arbitrary: n)
  case 0
  show ?case by (simp add: be_int_def)
next
  case (Suc len)
  have u: "uint (word_of_int (n mod 256) :: byte) = n mod 256"
    by (simp add: uint_word_of_int)
  have "n mod (256 * 256 ^ len) = 256 * ((n div 256) mod 256 ^ len) + n mod 256"
    by (simp add: zmod_zmult2_eq)
  with Suc [of "n div 256"] u show ?case
    by (simp add: be_int_snoc)
qed

lemma be_int_be_bytes_id:
  "0 \<le> n \<Longrightarrow> n < 256 ^ len \<Longrightarrow> be_int (be_bytes len n) = n"
  by (simp add: be_int_be_bytes)

lemma int_to_bytes_Inr:
  "int_to_bytes n len = Inr bs \<longleftrightarrow> 0 \<le> n \<and> n < 256 ^ len \<and> bs = be_bytes len n"
  by (auto simp: int_to_bytes_def)

lemma sign_intent_Inr:
  "sign_intent encode_typed_data sign_message intent private_key chain_id verifying_contract
     = Inr sg \<longleftrightarrow>
   (\<exists>signable sm.
      encode_typed_data (build_eip712_message intent chain_id verifying_contract) = Inr signable
    \<and> sign_message signable private_key = Inr sm
    \<and> 0 \<le> sig_r sm \<and> sig_r sm < 256 ^ 32
    \<and> 0 \<le> sig_s sm \<and> sig_s sm < 256 ^ 32
    \<and> 0 \<le> sig_v sm \<and> sig_v sm < 256 ^ 1
    \<and> sg = be_bytes 32 (sig_r sm) @ be_bytes 32 (sig_s sm) @ be_bytes 1 (sig_v sm))"
  unfolding sign_intent_def Let_def
  by (auto simp: int_to_bytes_def split: sum.splits if_splits)

text \<open>
  C7. Whenever \<open>sign_intent\<close> returns, the signature has exactly 65 bytes: the library
  call returned a signed message with attributes \<open>r\<close>, \<open>s\<close>, \<open>v\<close>, and the signature is
  the 32 bytes of \<open>r\<close>, then the 32 bytes of \<open>s\<close>, then the one byte of \<open>v\<close>, each
  big-endian, so that reading bytes 0 to 31, 32 to 63 and 64 back as big-endian numbers
  gives \<open>r\<close>, \<open>s\<close> and \<open>v\<close>.
\<close>

theorem sign_intent_packed:
  assumes "sign_intent encode_typed_data sign_message intent private_key chain_id
             verifying_contract = Inr sg"
  shows "length sg = 65 \<and>
     (\<exists>signable sm.
        encode_typed_data (build_eip712_message intent chain_id verifying_contract) = Inr signable
      \<and> sign_message signable private_key = Inr sm
      \<and> sg = be_bytes 32 (sig_r sm) @ be_bytes 32 (sig_s sm) @ be_bytes 1 (sig_v sm)
      \<and> be_int (take 32 sg) = sig_r sm
      \<and> be_int (take 32 (drop 32 sg)) = sig_s sm
      \<and> be_int (drop 64 sg) = sig_v sm)"
proof -
  from assms obtain signable sm where
    e: "encode_typed_data (build_eip712_message intent chain_id verifying_contract) = Inr signable"
    and s: "sign_message signable private_key = Inr sm"
    and r: "0 \<le> sig_r sm" "sig_r sm < 256 ^ 32"
    and ss: "0 \<le> sig_s sm" "sig_s sm < 256 ^ 32"
    and v: "0 \<le> sig_v sm" "sig_v sm < 256 ^ 1"
    and sg: "sg = be_bytes 32 (sig_r sm) @ be_bytes 32 (sig_s sm) @ be_bytes 1 (sig_v sm)"
    unfolding sign_intent_Inr by blast
  have l: "length sg = 65" by (simp add: sg)
  have t1: "take 32 sg = be_bytes 32 (sig_r sm)" by (simp add: sg)
  have t2: "take 32 (drop 32 sg) = be_bytes 32 (sig_s sm)" by (simp add: sg)
  have t3: "drop 64 sg = be_bytes 1 (sig_v sm)" by (simp add: sg)
  have "be_int (take 32 sg) = sig_r sm"
    unfolding t1 using r by (rule be_int_be_bytes_id)
  moreover have "be_int (take 32 (drop 32 sg)) = sig_s sm"
    unfolding t2 using ss by (rule be_int_be_bytes_id)
  moreover have "be_int (drop 64 sg) = sig_v sm"
    unfolding t3 using v by (rule be_int_be_bytes_id)
  ultimately show ?thesis using l e s sg by blast
qed

theorem sign_intent_packed_witness:
  "sign_intent (\<lambda>m. Inr m) (\<lambda>m k. Inr \<lparr>sig_r = 1, sig_s = 2, sig_v = 27\<rparr>)
     \<lparr>user = ''0x01'',
      pool = \<lparr>currency0 = ''0x02'', currency1 = ''0x03'', fee = 3000, tick_spacing = 60,
               hooks = ''0x00''\<rparr>,
      tick_lower = - 887220, tick_upper = 887220,
      amount = 100, nonce = 0, deadline = 99999999999\<rparr>
     ''0xkey'' 31337 ''0x1234''
   = Inr (be_bytes 32 1 @ be_bytes 32 2 @ be_bytes 1 27)
   \<and> length (be_bytes 32 1 @ be_bytes 32 2 @ be_bytes 1 27) = 65
   \<and> be_int (take 32 (be_bytes 32 1 @ be_bytes 32 2 @ be_bytes 1 27)) = 1
   \<and> be_int (take 32 (drop 32 (be_bytes 32 1 @ be_bytes 32 2 @ be_bytes 1 27))) = 2
   \<and> be_int (drop 64 (be_bytes 32 1 @ be_bytes 32 2 @ be_bytes 1 27)) = 27"
proof -
  let ?i = "\<lparr>user = ''0x01'',
      pool = \<lparr>currency0 = ''0x02'', currency1 = ''0x03'', fee = 3000, tick_spacing = 60,
               hooks = ''0x00''\<rparr>,
      tick_lower = - 887220, tick_upper = 887220,
      amount = 100, nonce = 0, deadline = 99999999999\<rparr>"
  let ?sg = "be_bytes 32 1 @ be_bytes 32 2 @ be_bytes 1 27"
  have run: "sign_intent (\<lambda>m. Inr m) (\<lambda>m k. Inr \<lparr>sig_r = 1, sig_s = 2, sig_v = 27\<rparr>)
               ?i ''0xkey'' 31337 ''0x1234'' = Inr ?sg"
    by (simp add: sign_intent_def int_to_bytes_def Let_def)
  from sign_intent_packed [OF run] have "length ?sg = 65"
    and "be_int (take 32 ?sg) = 1"
    and "be_int (take 32 (drop 32 ?sg)) = 2"
    and "be_int (drop 64 ?sg) = 27"
    by auto
  with run show ?thesis by blast
qed

text \<open>
  Verification after signing: \<open>verify_intent_signature\<close> passes to the library's
  recovery the same signable value that was signed, together with the packed bytes.
\<close>

lemma verify_after_sign:
  assumes "sign_intent encode_typed_data sign_message intent private_key chain_id
             verifying_contract = Inr sg"
  shows "\<exists>signable sm.
        encode_typed_data (build_eip712_message intent chain_id verifying_contract) = Inr signable
      \<and> sign_message signable private_key = Inr sm
      \<and> verify_intent_signature encode_typed_data recover_message intent sg chain_id
            verifying_contract
          = recover_message signable
              (be_bytes 32 (sig_r sm) @ be_bytes 32 (sig_s sm) @ be_bytes 1 (sig_v sm))"
  using assms unfolding sign_intent_Inr verify_intent_signature_def Let_def
  by auto

section \<open>Properties of the range computation\<close>

subsection \<open>Rounding to a double\<close>

lemma expo_ge: "- 1022 \<le> expo x"
proof (cases "\<bar>x\<bar> < 2 powr (- 1022)")
  case True then show ?thesis by (simp add: expo_def)
next
  case False
  then have "2 powr (- 1022) \<le> \<bar>x\<bar>" by simp
  then have "log 2 (2 powr (- 1022)) \<le> log 2 \<bar>x\<bar>"
    by (subst log_le_cancel_iff) (auto intro: less_le_trans [of 0 "2 powr (- 1022)"])
  then have "(- 1022 :: real) \<le> log 2 \<bar>x\<bar>" by simp
  then have "(- 1022 :: int) \<le> \<lfloor>log 2 \<bar>x\<bar>\<rfloor>" by (simp add: le_floor_iff)
  with False show ?thesis by (simp add: expo_def)
qed

lemma ulp_pos: "0 < ulp x"
  by (simp add: ulp_def)

lemma ulp_ge: "2 powr (- 1074) \<le> ulp x"
proof -
  have "(- 1074 :: real) \<le> of_int (expo x) - 52"
    using expo_ge [of x] by simp
  then show ?thesis unfolding ulp_def by (simp only: powr_le_cancel_iff) 
qed

lemma ulp_le: "ulp x \<le> \<bar>x\<bar> * 2 powr (- 52) + 2 powr (- 1074)"
proof (cases "\<bar>x\<bar> < 2 powr (- 1022)")
  case True
  then have "ulp x = 2 powr (- 1074)" by (simp add: ulp_def expo_def)
  then show ?thesis by simp
next
  case False
  then have x: "2 powr (- 1022) \<le> \<bar>x\<bar>" by simp
  then have pos: "0 < \<bar>x\<bar>" by (rule less_le_trans [rotated]) simp
  have "of_int (expo x) \<le> log 2 \<bar>x\<bar>" using False by (simp add: expo_def)
  then have "2 powr (of_int (expo x)) \<le> 2 powr (log 2 \<bar>x\<bar>)" by simp
  also have "\<dots> = \<bar>x\<bar>" using pos by simp
  finally have "2 powr (of_int (expo x)) * 2 powr (- 52) \<le> \<bar>x\<bar> * 2 powr (- 52)"
    by (simp add: mult_right_mono)
  then have "ulp x \<le> \<bar>x\<bar> * 2 powr (- 52)"
    by (simp add: ulp_def powr_diff powr_minus field_simps)
  then show ?thesis by (simp add: add_increasing2)
qed

lemma round_half_even_cases:
  "round_half_even y = \<lfloor>y\<rfloor> \<and> y - of_int \<lfloor>y\<rfloor> \<le> 1 / 2
   \<or> round_half_even y = \<lfloor>y\<rfloor> + 1 \<and> 1 / 2 \<le> y - of_int \<lfloor>y\<rfloor>"
  unfolding round_half_even_def Let_def by auto

lemma round_half_even_err: "\<bar>of_int (round_half_even y) - y\<bar> \<le> 1 / 2"
  using round_half_even_cases [of y] by (elim disjE conjE) (simp; linarith)+

lemma round_half_even_nonneg: "0 \<le> y \<Longrightarrow> 0 \<le> round_half_even y"
  using round_half_even_cases [of y] by (elim disjE conjE) (simp; linarith)+

lemma round_half_even_nonpos: "y \<le> 0 \<Longrightarrow> round_half_even y \<le> 0"
proof -
  assume y: "y \<le> 0"
  have "of_int (round_half_even y) \<le> y + 1 / 2"
    using round_half_even_err [of y] by linarith
  with y have "(of_int (round_half_even y) :: real) < 1" by linarith
  then show ?thesis by linarith
qed

lemma round_half_even_int [simp]: "round_half_even (of_int n) = n"
  unfolding round_half_even_def Let_def by simp

lemma rnd_err: "\<bar>rnd x - x\<bar> \<le> ulp x / 2"
proof -
  have "rnd x - x = (of_int (round_half_even (x / ulp x)) - x / ulp x) * ulp x"
    using ulp_pos [of x] by (simp add: rnd_def left_diff_distrib)
  then have "\<bar>rnd x - x\<bar> = \<bar>of_int (round_half_even (x / ulp x)) - x / ulp x\<bar> * ulp x"
    using ulp_pos [of x] by (simp add: abs_mult)
  also have "\<dots> \<le> 1 / 2 * ulp x"
    using round_half_even_err [of "x / ulp x"] ulp_pos [of x]
    by (intro mult_right_mono) auto
  finally show ?thesis by simp
qed

lemma rnd_err_rel: "\<bar>rnd x - x\<bar> \<le> \<bar>x\<bar> * 2 powr (- 53) + 2 powr (- 1075)"
proof -
  have a: "(2 powr (- 52) :: real) = 2 * 2 powr (- 53)"
    by (simp add: powr_minus)
  have b: "(2 powr (- 1074) :: real) = 2 * 2 powr (- 1075)"
    by (simp add: powr_minus)
  show ?thesis using rnd_err [of x] ulp_le [of x] unfolding a b by linarith
qed

lemma rnd_nonneg: "0 \<le> x \<Longrightarrow> 0 \<le> rnd x"
  using ulp_pos [of x] round_half_even_nonneg [of "x / ulp x"]
  by (simp add: rnd_def)

lemma rnd_nonpos: "x \<le> 0 \<Longrightarrow> rnd x \<le> 0"
  using ulp_pos [of x] round_half_even_nonpos [of "x / ulp x"]
  by (simp add: rnd_def mult_le_0_iff divide_le_0_iff)

lemma rnd_zero [simp]: "rnd 0 = 0"
  using rnd_nonneg [of 0] rnd_nonpos [of 0] by simp

lemma rnd_pos_ge: "0 < rnd x \<Longrightarrow> 2 powr (- 1074) \<le> rnd x"
proof -
  assume p: "0 < rnd x"
  define n where "n = round_half_even (x / ulp x)"
  have r: "rnd x = of_int n * ulp x" by (simp add: rnd_def n_def)
  with p ulp_pos [of x] have "0 < n" by (simp add: zero_less_mult_iff)
  then have "1 \<le> (of_int n :: real)" by simp
  then have "1 * ulp x \<le> of_int n * ulp x"
    using ulp_pos [of x] by (intro mult_right_mono) auto
  with ulp_ge [of x] r show ?thesis by simp
qed

lemma rnd_tiny: "\<bar>x\<bar> < 2 powr (- 1075) \<Longrightarrow> rnd x = 0"
proof -
  assume t: "\<bar>x\<bar> < 2 powr (- 1075)"
  have b: "(2 powr (- 1074) :: real) = 2 * 2 powr (- 1075)"
    by (simp add: powr_minus)
  have "\<bar>x\<bar> < ulp x / 2" using ulp_ge [of x] t unfolding b by linarith
  then have "\<bar>x / ulp x\<bar> < 1 / 2" using ulp_pos [of x] by (simp add: field_simps)
  with round_half_even_err [of "x / ulp x"]
  have "\<bar>of_int (round_half_even (x / ulp x)) :: real\<bar> < 1" by linarith
  then have "round_half_even (x / ulp x) = 0" by linarith
  then show ?thesis by (simp add: rnd_def)
qed

subsection \<open>Error bounds\<close>

lemma two52: "(2 powr (- 52) :: real) \<le> 1 / 1000000000000000"
  by (simp add: powr_minus divide_simps)

lemma tiny_le: "(2 powr (- 1074) :: real) \<le> 1 / 1000000000000000000000000000000"
proof -
  have "(2 powr (- 1074) :: real) \<le> 2 powr (- 100)" by (simp only: powr_le_cancel_iff)
  also have "\<dots> \<le> 1 / 1000000000000000000000000000000"
    by (simp add: powr_minus divide_simps)
  finally show ?thesis .
qed

lemma tiny_pos: "0 < (2 powr (- 1074) :: real)"
  by simp

lemma rnd_err_num: "\<bar>rnd x - x\<bar> \<le> \<bar>x\<bar> / 1000000000000000 + 2 powr (- 1074)"
proof -
  have "(2 powr (- 53) :: real) \<le> 2 powr (- 52)" by (simp only: powr_le_cancel_iff)
  with two52 have "(2 powr (- 53) :: real) \<le> 1 / 1000000000000000" by linarith
  then have "\<bar>x\<bar> * 2 powr (- 53) \<le> \<bar>x\<bar> * (1 / 1000000000000000)"
    by (rule mult_left_mono) simp
  moreover have "(2 powr (- 1075) :: real) \<le> 2 powr (- 1074)"
    by (simp only: powr_le_cancel_iff)
  ultimately show ?thesis using rnd_err_rel [of x] by linarith
qed

lemma libm_value_err:
  "\<bar>libm_value e l - e\<bar> \<le> \<bar>e\<bar> / 1000000000000000 + 2 powr (- 1074)"
proof -
  have u: "ulp e \<le> \<bar>e\<bar> / 1000000000000000 + 2 powr (- 1074)"
  proof -
    have "\<bar>e\<bar> * 2 powr (- 52) \<le> \<bar>e\<bar> * (1 / 1000000000000000)"
      by (rule mult_left_mono [OF two52]) simp
    with ulp_le [of e] show ?thesis by linarith
  qed
  show ?thesis
  proof (cases "rnd l = l \<and> \<bar>l - e\<bar> \<le> ulp e")
    case True
    then show ?thesis using u by (simp add: libm_value_def)
  next
    case False
    then have "libm_value e l = rnd e" by (auto simp: libm_value_def)
    then show ?thesis using rnd_err_num [of e] by simp
  qed
qed

lemma ln_one_plus_abs: "\<bar>d\<bar> \<le> 1 / 2 \<Longrightarrow> \<bar>ln (1 + d)\<bar> \<le> 2 * \<bar>d :: real\<bar>"
proof -
  assume d: "\<bar>d\<bar> \<le> 1 / 2"
  have "\<bar>ln (1 + d) - d\<bar> \<le> 2 * d\<^sup>2"
    by (rule abs_ln_one_plus_x_minus_x_bound [OF d])
  moreover have "2 * d\<^sup>2 \<le> \<bar>d\<bar>"
  proof -
    have "\<bar>d\<bar> * \<bar>d\<bar> \<le> 1 / 2 * \<bar>d\<bar>" using d by (intro mult_right_mono) auto
    then show ?thesis by (simp add: power2_eq_square)
  qed
  ultimately show ?thesis by linarith
qed

lemma ln_ratio:
  fixes a b r :: real
  assumes a: "0 < a" and e: "\<bar>b - a\<bar> \<le> a * r" and r: "r \<le> 1 / 2"
  shows "0 < b" and "\<bar>ln b - ln a\<bar> \<le> 2 * r"
proof -
  define d where "d = (b - a) / a"
  have b: "b = a * (1 + d)" using a by (simp add: d_def field_simps)
  have "\<bar>d\<bar> = \<bar>b - a\<bar> / a" using a by (simp add: d_def)
  also have "\<dots> \<le> r" using a e by (simp add: field_simps)
  finally have d: "\<bar>d\<bar> \<le> r" .
  with r have d2: "\<bar>d\<bar> \<le> 1 / 2" by linarith
  then have p: "0 < 1 + d" by linarith
  with a b show "0 < b" by simp
  have "ln b = ln a + ln (1 + d)" using a p b by (simp add: ln_mult)
  moreover have "\<bar>ln (1 + d)\<bar> \<le> 2 * \<bar>d\<bar>" by (rule ln_one_plus_abs [OF d2])
  ultimately show "\<bar>ln b - ln a\<bar> \<le> 2 * r" using d by linarith
qed

lemma tick_base_lower: "9999 / 100000000 \<le> ln (10001 / 10000 :: real)"
proof -
  have "(1 / 10000 :: real) - (1 / 10000)\<^sup>2 \<le> ln (1 + 1 / 10000)"
    by (rule ln_one_plus_pos_lower_bound) simp_all
  then show ?thesis by (simp add: power2_eq_square)
qed

lemma tick_base_upper: "ln (10001 / 10000 :: real) < 1 / 10000"
proof -
  have "ln (1 + 1 / 10000 :: real) < 1 / 10000"
    by (rule ln_add_one_self_less_self) simp
  then show ?thesis by simp
qed

lemma tick_literal:
  "\<bar>rnd (10001 / 10000) - 10001 / 10000\<bar> \<le> 2 / 1000000000000000"
  using rnd_err_num [of "10001 / 10000"] tiny_le by simp

lemma tick_literal_pos: "1 < rnd (10001 / 10000)"
  using tick_literal by linarith

lemma tick_literal_ln:
  "\<bar>ln (rnd (10001 / 10000)) - ln (10001 / 10000)\<bar> \<le> 4 / 1000000000000000"
proof -
  have "\<bar>rnd (10001 / 10000) - 10001 / 10000\<bar> \<le> 10001 / 10000 * (2 / 1000000000000000)"
    using tick_literal by linarith
  from ln_ratio(2) [OF _ this] show ?thesis by simp
qed

text \<open>The logarithm of the tick base, as \<open>price_to_tick\<close> computes it.\<close>

lemma log_base:
  "\<exists>b. math_log m (Fin (rnd (10001 / 10000))) = Inr (Fin b)
       \<and> \<bar>b - ln (10001 / 10000)\<bar> \<le> 5 / 1000000000000000"
proof -
  let ?d = "rnd (10001 / 10000)"
  let ?b = "libm_value (ln ?d) (lib_log m ?d)"
  have d: "1 < ?d" by (rule tick_literal_pos)
  then have 1: "math_log m (Fin ?d) = Inr (Fin ?b)" by simp
  have l: "\<bar>ln ?d\<bar> \<le> 2 / 10000"
    using tick_literal_ln tick_base_lower tick_base_upper by linarith
  have "\<bar>?b - ln ?d\<bar> \<le> \<bar>ln ?d\<bar> / 1000000000000000 + 2 powr (- 1074)"
    by (rule libm_value_err)
  with l tiny_le have "\<bar>?b - ln ?d\<bar> \<le> 1 / 1000000000000000" by linarith
  with tick_literal_ln have "\<bar>?b - ln (10001 / 10000)\<bar> \<le> 5 / 1000000000000000"
    by linarith
  with 1 show ?thesis by blast
qed

lemma log_base_pos:
  "\<exists>b. math_log m (Fin (rnd (10001 / 10000))) = Inr (Fin b)
       \<and> 9 / 100000 \<le> b \<and> b \<le> 11 / 100000"
proof -
  obtain b where b: "math_log m (Fin (rnd (10001 / 10000))) = Inr (Fin b)"
    "\<bar>b - ln (10001 / 10000)\<bar> \<le> 5 / 1000000000000000"
    using log_base by blast
  with tick_base_lower tick_base_upper have "9 / 100000 \<le> b \<and> b \<le> 11 / 100000"
    by linarith
  with b(1) show ?thesis by blast
qed

subsection \<open>Values that rounding leaves unchanged\<close>

lemma expo_eq:
  assumes e: "- 1022 \<le> e" and l: "2 powr (of_int e) \<le> \<bar>x\<bar>" and u: "\<bar>x\<bar> < 2 powr (of_int e + 1)"
  shows "expo x = e"
proof -
  have "(2 powr (- 1022) :: real) \<le> 2 powr (of_int e)"
    using e by simp
  with l have n: "\<not> \<bar>x\<bar> < 2 powr (- 1022)" by linarith
  have pos: "0 < \<bar>x\<bar>" using l by (rule less_le_trans [rotated]) simp
  have "of_int e \<le> log 2 \<bar>x\<bar>" using l pos by (simp add: le_log_iff)
  moreover have "log 2 \<bar>x\<bar> < of_int e + 1" using u pos by (simp add: log_less_iff)
  ultimately have "\<lfloor>log 2 \<bar>x\<bar>\<rfloor> = e" by (intro floor_unique) auto
  with n show ?thesis by (simp add: expo_def)
qed

lemma rnd_exact:
  assumes "expo x = e" and "x = of_int n * 2 powr (of_int e - 52)"
  shows "rnd x = x"
proof -
  have u: "ulp x = 2 powr (of_int e - 52)" using assms(1) by (simp add: ulp_def)
  have "x / ulp x = of_int n" unfolding u using assms(2) by simp
  then show ?thesis unfolding rnd_def using assms(2) u by simp
qed

lemma rnd_one [simp]: "rnd 1 = 1"
proof -
  have "expo 1 = 0" by (rule expo_eq) simp_all
  then show ?thesis
    by (rule rnd_exact [where n = "2 ^ 52"]) (simp add: powr_minus)
qed

lemma is_float_one: "is_float (Fin 1)"
  by (simp add: is_float_def)

subsection \<open>The range of the logarithm\<close>

lemma ln_double_bound:
  fixes x :: real
  assumes l: "2 powr (- 1074) \<le> x" and u: "x < 2 ^ 1024"
  shows "\<bar>ln x\<bar> \<le> 1074"
proof -
  have pos: "0 < x" using l by (rule less_le_trans [rotated]) simp
  have l2: "0 < ln (2 :: real)" "ln (2 :: real) < 1" using ln_2_less_1 by simp_all
  have "ln (2 powr (- 1074)) \<le> ln x" using l pos by (subst ln_le_cancel_iff) simp_all
  then have a: "- 1074 * ln 2 \<le> ln x" by (simp add: ln_powr)
  have "ln x < ln (2 ^ 1024)" using u pos by (subst ln_less_cancel_iff) simp_all
  then have b: "ln x < 1024 * ln 2" by (simp only: ln_realpow)
  from a b l2 show ?thesis by linarith
qed

lemma fround_Fin: "\<bar>rnd x\<bar> < 2 ^ 1024 \<Longrightarrow> fround x = Fin (rnd x)"
  by (simp add: fround_def Let_def abs_less_iff)

lemma big_1024: "(100000000000000000000 :: real) < 2 ^ 1024"
  by simp

lemma fround_small: "\<bar>x\<bar> \<le> 10000000000 \<Longrightarrow> fround x = Fin (rnd x)"
proof (rule fround_Fin)
  assume "\<bar>x\<bar> \<le> 10000000000"
  with rnd_err_num [of x] tiny_le have "\<bar>rnd x\<bar> \<le> 100000000000000000000" by linarith
  with big_1024 show "\<bar>rnd x\<bar> < 2 ^ 1024" by linarith
qed

subsection \<open>Where \<open>price_to_tick\<close> returns\<close>

text \<open>
  For a positive double the two logarithms return, the divisor is not zero, and the
  quotient is far from the overflow, so that the tick is the floor of the rounded
  quotient of the two values of the library's logarithm.
\<close>

lemma price_to_tick_value:
  assumes l: "2 powr (- 1074) \<le> x" and u: "x < 2 ^ 1024"
  shows "\<exists>a b. math_log m (Fin x) = Inr (Fin a)
             \<and> \<bar>a - ln x\<bar> \<le> \<bar>ln x\<bar> / 1000000000000000 + 2 powr (- 1074)
             \<and> math_log m (Fin (rnd (10001 / 10000))) = Inr (Fin b)
             \<and> \<bar>b - ln (10001 / 10000)\<bar> \<le> 5 / 1000000000000000
             \<and> price_to_tick m (Fin x) = Inr \<lfloor>rnd (a / b)\<rfloor>"
proof -
  have pos: "0 < x" using l by (rule less_le_trans [rotated]) simp
  define a where "a = (if x = 1 then 0 else libm_value (ln x) (lib_log m x))"
  have A: "math_log m (Fin x) = Inr (Fin a)" using pos by (simp add: a_def)
  have ea: "\<bar>a - ln x\<bar> \<le> \<bar>ln x\<bar> / 1000000000000000 + 2 powr (- 1074)"
    using libm_value_err [of "ln x" "lib_log m x"] by (simp add: a_def)
  obtain b where B: "math_log m (Fin (rnd (10001 / 10000))) = Inr (Fin b)"
    and eb: "\<bar>b - ln (10001 / 10000)\<bar> \<le> 5 / 1000000000000000"
    using log_base by blast
  have bl: "9 / 100000 \<le> b" using eb tick_base_lower by linarith
  then have b0: "b \<noteq> 0" "0 < b" by linarith+
  have "\<bar>a\<bar> \<le> 1075" using ea ln_double_bound [OF l u] tiny_le by linarith
  then have "\<bar>a\<bar> \<le> 1075 * (100000 / 9 * b)" using bl by (simp add: field_simps)
  then have "\<bar>a / b\<bar> \<le> 1075 * (100000 / 9)" using b0 by (simp add: field_simps abs_mult)
  then have "\<bar>a / b\<bar> \<le> 10000000000" by linarith
  then have Q: "fround (a / b) = Fin (rnd (a / b))" by (rule fround_small)
  have "price_to_tick m (Fin x) = Inr \<lfloor>rnd (a / b)\<rfloor>"
    unfolding price_to_tick_def using pos b0 by (simp add: A B Q del: math_log.simps)
  with A ea B eb show ?thesis by blast
qed

lemma price_to_tick_error: "\<not> finite_pos q \<Longrightarrow> price_to_tick m q = Inl (tick_error q)"
proof -
  assume n: "\<not> finite_pos q"
  obtain b where B: "math_log m (Fin (rnd (10001 / 10000))) = Inr (Fin b)"
    and bl: "9 / 100000 \<le> b" using log_base_pos by blast
  then have b0: "b \<noteq> 0" "0 < b" by linarith+
  show ?thesis
  proof (cases q)
    case (Fin x)
    with n show ?thesis by (simp add: finite_pos_def price_to_tick_def tick_error_def)
  next
    case PInf
    then show ?thesis using b0
      by (simp add: price_to_tick_def tick_error_def B inf_of_sign_def del: math_log.simps(1))
  next
    case NInf
    then show ?thesis by (simp add: price_to_tick_def tick_error_def)
  next
    case NaN
    then show ?thesis using b0
      by (simp add: price_to_tick_def tick_error_def B del: math_log.simps(1))
  qed
qed

text \<open>
  The floats that \<open>compute_optimal_range\<close> applies \<open>price_to_tick\<close> to are doubles: the
  price, by assumption, and two products.
\<close>

lemma price_to_tick_total:
  assumes "\<And>x. q = Fin x \<Longrightarrow> 0 < x \<Longrightarrow> 2 powr (- 1074) \<le> x \<and> x < 2 ^ 1024"
  shows "price_to_tick m q =
           (if finite_pos q then Inr (tick_of m q) else Inl (tick_error q))"
proof (cases "finite_pos q")
  case False
  then show ?thesis by (simp add: price_to_tick_error)
next
  case True
  then obtain x where q: "q = Fin x" and x: "0 < x"
    by (cases q) (simp_all add: finite_pos_def)
  from assms [OF q x] obtain t where "price_to_tick m (Fin x) = Inr t"
    using price_to_tick_value [of x m] by blast
  then show ?thesis using True q by (simp add: tick_of_def)
qed

lemma fround_range:
  assumes "fround z = Fin x" and "0 < x"
  shows "2 powr (- 1074) \<le> x \<and> x < 2 ^ 1024"
proof -
  from assms(1) have "x = rnd z" "rnd z < 2 ^ 1024"
    by (auto simp: fround_def Let_def split: if_splits)
  with assms(2) rnd_pos_ge [of z] show ?thesis by simp
qed

lemma inf_of_sign_not_Fin: "inf_of_sign i \<noteq> Fin x"
  by (simp add: inf_of_sign_def)

lemma fmul_range:
  assumes "fmul a b = Fin x" and "0 < x"
  shows "2 powr (- 1074) \<le> x \<and> x < 2 ^ 1024"
proof (cases a)
  case (Fin u)
  show ?thesis
  proof (cases b)
    case (Fin v)
    with \<open>a = Fin u\<close> assms(1) have "fround (u * v) = Fin x" by simp
    then show ?thesis using assms(2) by (rule fround_range)
  qed (use \<open>a = Fin u\<close> assms(1) in \<open>simp_all add: inf_of_sign_not_Fin\<close>)
qed (use assms(1) in \<open>cases b; simp add: inf_of_sign_not_Fin\<close>)+

lemma price_to_tick_fmul:
  "price_to_tick m (fmul a b) =
     (if finite_pos (fmul a b) then Inr (tick_of m (fmul a b)) else Inl (tick_error (fmul a b)))"
  by (rule price_to_tick_total) (rule fmul_range)

lemma price_to_tick_float:
  assumes "is_float p"
  shows "price_to_tick m p = (if finite_pos p then Inr (tick_of m p) else Inl (tick_error p))"
proof (rule price_to_tick_total)
  fix x assume "p = Fin x" and x: "0 < x"
  with assms have r: "rnd x = x" and u: "\<bar>x\<bar> < 2 ^ 1024" by (simp_all add: is_float_def)
  from x r have "0 < rnd x" by simp
  then have "2 powr (- 1074) \<le> rnd x" by (rule rnd_pos_ge)
  with r u show "2 powr (- 1074) \<le> x \<and> x < 2 ^ 1024" by simp
qed

lemma math_exp_error: "math_exp m x = Inl e \<Longrightarrow> e = OverflowError"
  by (cases x) (auto simp: Let_def split: if_splits)

subsection \<open>The result of \<open>compute_optimal_range\<close>\<close>

lemma rounded_range_valid:
  assumes "0 < s"
  shows "fst (rounded_range t1 t2 s) < snd (rounded_range t1 t2 s)
       \<and> s dvd fst (rounded_range t1 t2 s) \<and> s dvd snd (rounded_range t1 t2 s)"
  using assms by (simp add: rounded_range_def Let_def)

lemma compute_optimal_range_cases:
  assumes s: "0 < s"
    and p: "price_to_tick m p = (if finite_pos p then Inr (tick_of m p) else Inl (tick_error p))"
  shows "compute_optimal_range m p v k s =
     (if \<not> finite_pos p then Inl (tick_error p)
      else case math_exp m (fmul (fneg k) (clamped v)) of
             Inl e \<Rightarrow> Inl OverflowError
           | Inr e_lower \<Rightarrow>
        (case math_exp m (fmul k (clamped v)) of
             Inl e \<Rightarrow> Inl OverflowError
           | Inr e_upper \<Rightarrow>
         if \<not> finite_pos (fmul p e_lower) then Inl (tick_error (fmul p e_lower))
         else if \<not> finite_pos (fmul p e_upper) then Inl (tick_error (fmul p e_upper))
         else Inr (rounded_range (tick_of m (fmul p e_lower)) (tick_of m (fmul p e_upper)) s)))"
proof -
  have r: "round_tick t s = Inr (t div s * s)" for t
    using s by (simp add: round_tick_def)
  show ?thesis
    unfolding compute_optimal_range_def Let_def p price_to_tick_fmul clamped_def
    using s
    by (auto simp: r rounded_range_def Let_def dest: math_exp_error
             split: sum.splits)
qed

lemma compute_optimal_range_outcome:
  assumes s: "0 < s" and p: "is_float p"
  shows "compute_optimal_range m p v k s =
     (if \<not> finite_pos p then Inl (tick_error p)
      else case math_exp m (fmul (fneg k) (clamped v)) of
             Inl e \<Rightarrow> Inl OverflowError
           | Inr e_lower \<Rightarrow>
        (case math_exp m (fmul k (clamped v)) of
             Inl e \<Rightarrow> Inl OverflowError
           | Inr e_upper \<Rightarrow>
         if \<not> finite_pos (fmul p e_lower) then Inl (tick_error (fmul p e_lower))
         else if \<not> finite_pos (fmul p e_upper) then Inl (tick_error (fmul p e_upper))
         else Inr (rounded_range (tick_of m (fmul p e_lower)) (tick_of m (fmul p e_upper)) s)))"
  by (rule compute_optimal_range_cases [OF s price_to_tick_float [OF p]])

subsection \<open>Two values of \<open>price_to_tick\<close>\<close>

text \<open>
  The tick of the price 1.0 is 0, and the tick of the price 1.0001, the tick base
  itself, is 1: the two logarithms of the quotient are then the same double.
\<close>

lemma price_to_tick_one: "price_to_tick m (Fin 1) = Inr 0"
proof -
  obtain b where B: "math_log m (Fin (rnd (10001 / 10000))) = Inr (Fin b)"
    and bl: "9 / 100000 \<le> b" using log_base_pos by blast
  then have b0: "b \<noteq> 0" by linarith
  have A: "math_log m (Fin 1) = Inr (Fin 0)" by simp
  have Q: "fdiv (Fin 0) (Fin b) = Inr (Fin 0)" using b0 by (simp add: fround_def Let_def)
  show ?thesis unfolding price_to_tick_def by (simp add: A B Q del: math_log.simps fdiv.simps)
qed

lemma price_to_tick_base: "price_to_tick m (Fin (rnd (10001 / 10000))) = Inr 1"
proof -
  obtain b where B: "math_log m (Fin (rnd (10001 / 10000))) = Inr (Fin b)"
    and bl: "9 / 100000 \<le> b" using log_base_pos by blast
  then have b0: "b \<noteq> 0" by linarith
  have p: "\<not> fle0 (Fin (rnd (10001 / 10000)))" using tick_literal_pos by simp
  have Q: "fdiv (Fin b) (Fin b) = Inr (Fin 1)" using b0 by (simp add: fround_def Let_def)
  show ?thesis unfolding price_to_tick_def
    by (simp add: p B Q del: math_log.simps fdiv.simps fle0.simps)
qed

subsection \<open>The error of one bound of the range\<close>

lemma exp_601_le: "exp (601 :: real) \<le> 3 ^ 601"
proof -
  have "exp (601 :: real) = exp (of_nat 601 * 1)" by simp
  also have "\<dots> = exp 1 ^ 601" by (simp only: exp_of_nat_mult)
  also have "\<dots> \<le> 3 ^ 601" by (rule power_mono [OF exp_le]) simp
  finally show ?thesis .
qed

lemma exp_range:
  assumes "\<bar>x :: real\<bar> \<le> 601"
  shows "1 / 3 ^ 601 \<le> exp x" and "exp x \<le> 3 ^ 601"
proof -
  have "exp x \<le> exp 601" using assms by simp
  then show "exp x \<le> 3 ^ 601" using exp_601_le by linarith
  have "exp (- x) \<le> exp 601" using assms by simp
  then have "exp (- x) \<le> 3 ^ 601" using exp_601_le by linarith
  then have "1 / 3 ^ 601 \<le> 1 / exp (- x)"
    by (intro divide_left_mono) (simp_all add: mult_pos_pos)
  then show "1 / 3 ^ 601 \<le> exp x" by (simp add: exp_minus field_simps)
qed

lemma tiny_exp: "(2 powr (- 1074) :: real) \<le> 1 / 3 ^ 601 / 1000000000000000"
  by (simp add: powr_minus divide_simps)

lemma math_exp_value:
  assumes "\<bar>x\<bar> \<le> 601"
  shows "\<exists>e. math_exp m (Fin x) = Inr (Fin e)
           \<and> \<bar>e - exp x\<bar> \<le> exp x * (2 / 1000000000000000)"
proof -
  define e where "e = (if x = 0 then 1 else libm_value (exp x) (lib_exp m x))"
  have "\<bar>e - exp x\<bar> \<le> \<bar>exp x\<bar> / 1000000000000000 + 2 powr (- 1074)"
    using libm_value_err [of "exp x" "lib_exp m x"] by (simp add: e_def)
  moreover have "2 powr (- 1074) \<le> exp x / 1000000000000000"
    using exp_range(1) [OF assms] tiny_exp by (simp add: field_simps) 
  ultimately have err: "\<bar>e - exp x\<bar> \<le> exp x * (2 / 1000000000000000)" by simp
  then have "e \<le> exp x * 2" using exp_gt_zero [of x] by linarith
  with exp_range(2) [OF assms] have "e \<le> 3 ^ 601 * 2" by linarith
  moreover have "(3 ^ 601 * 2 :: real) < 2 ^ 1024" by simp
  ultimately have "\<not> 2 ^ 1024 \<le> e" by linarith
  then have "math_exp m (Fin x) = Inr (Fin e)" by (simp add: e_def Let_def)
  with err show ?thesis by blast
qed

lemma tiny_mul: "(2 powr (- 1074) :: real) \<le> 1 / 2 ^ 1003 / 1000000000000000"
  by (simp add: powr_minus divide_simps)

lemma fround_value:
  assumes l: "1 / 2 ^ 1003 \<le> z" and u: "z \<le> 2 ^ 1003"
  shows "\<exists>q. fround z = Fin q \<and> \<bar>q - z\<bar> \<le> z * (2 / 1000000000000000)
           \<and> 2 powr (- 1074) \<le> q \<and> q < 2 ^ 1024"
proof -
  have z: "0 < z" using l by (rule less_le_trans [rotated]) simp
  have "2 powr (- 1074) \<le> z / 1000000000000000"
    using l tiny_mul by (simp add: field_simps)
  with rnd_err_num [of z] z have err: "\<bar>rnd z - z\<bar> \<le> z * (2 / 1000000000000000)"
    by simp
  with z have p: "0 < rnd z" and "rnd z \<le> z * 2" by linarith+
  with u have "rnd z \<le> 2 ^ 1003 * 2" by linarith
  moreover have "(2 ^ 1003 * 2 :: real) < 2 ^ 1024" by simp
  ultimately have r: "rnd z < 2 ^ 1024" by linarith
  with p have "fround z = Fin (rnd z)" by (intro fround_Fin) simp
  with err rnd_pos_ge [OF p] r show ?thesis by blast
qed

lemma ln_2_ge: "1 / 4 \<le> ln (2 :: real)"
proof -
  have "(1 / 2 :: real) - (1 / 2)\<^sup>2 \<le> ln (1 + 1 / 2)"
    by (rule ln_one_plus_pos_lower_bound) simp_all
  then have a: "1 / 4 \<le> ln (3 / 2 :: real)" by (simp add: power2_eq_square)
  have b: "ln (3 / 2 :: real) \<le> ln 2" by simp
  from a b show ?thesis by linarith
qed

lemma ln_pow2_bounds:
  fixes g :: real
  assumes "0 < g" and "1 / 2 ^ n \<le> g" and "g \<le> 2 ^ n"
  shows "- (real n * ln 2) \<le> ln g" and "ln g \<le> real n * ln 2"
proof -
  have "ln (1 / 2 ^ n) \<le> ln g" using assms by (subst ln_le_cancel_iff) simp_all
  then show "- (real n * ln 2) \<le> ln g" by (simp add: ln_div ln_realpow)
  have "ln g \<le> ln (2 ^ n)" using assms by (subst ln_le_cancel_iff) simp_all
  then show "ln g \<le> real n * ln 2" by (simp add: ln_realpow)
qed

lemma ln_pow2_bounds_rev:
  fixes g :: real
  assumes "0 < g" and "- (real n * ln 2) \<le> ln g" and "ln g \<le> real n * ln 2"
  shows "1 / 2 ^ n \<le> g" and "g \<le> 2 ^ n"
proof -
  have "ln (1 / 2 ^ n) \<le> ln g" using assms by (simp add: ln_div ln_realpow)
  then show "1 / 2 ^ n \<le> g" using assms(1) by (subst (asm) ln_le_cancel_iff) simp_all
  have "ln g \<le> ln (2 ^ n)" using assms by (simp add: ln_realpow)
  then show "g \<le> 2 ^ n" using assms(1) by (subst (asm) ln_le_cancel_iff) simp_all
qed

lemma quotient_error:
  fixes a b w :: real
  assumes a: "\<bar>a - w\<bar> \<le> 4 / 1000000000000" and w: "\<bar>w\<bar> \<le> 1000"
    and b: "\<bar>b - ln (10001 / 10000)\<bar> \<le> 5 / 1000000000000000"
  shows "\<bar>rnd (a / b) - w / ln (10001 / 10000)\<bar> \<le> 1 / 10"
proof -
  let ?c = "ln (10001 / 10000 :: real)"
  have cl: "9999 / 100000000 \<le> ?c" and cu: "?c < 1 / 10000"
    by (rule tick_base_lower, rule tick_base_upper)
  have bl: "9 / 100000 \<le> b" using b cl by linarith
  have b0: "0 < b" and c0: "0 < ?c" using bl cl by linarith+
  have b': "\<bar>?c - b\<bar> \<le> 5 / 1000000000000000" using b by linarith
  have "\<bar>(a - w) * ?c\<bar> \<le> 4 / 1000000000000 * (1 / 10000)"
    unfolding abs_mult using a cu c0 by (intro mult_mono) simp_all
  moreover have "\<bar>w * (?c - b)\<bar> \<le> 1000 * (5 / 1000000000000000)"
    unfolding abs_mult using w b' by (intro mult_mono) simp_all
  moreover have "a * ?c - w * b = (a - w) * ?c + w * (?c - b)" by (simp add: algebra_simps)
  ultimately have n: "\<bar>a * ?c - w * b\<bar> \<le> 6 / 1000000000000" by linarith
  have "9 / 100000 * (9999 / 100000000) \<le> b * ?c"
    using bl cl by (intro mult_mono) simp_all
  then have d: "8 / 1000000000 \<le> b * ?c" by simp
  have "a / b - w / ?c = (a * ?c - w * b) / (b * ?c)"
    using b0 c0 by (simp add: field_simps)
  then have "\<bar>a / b - w / ?c\<bar> = \<bar>a * ?c - w * b\<bar> / (b * ?c)"
    using b0 c0 by (simp add: abs_mult)
  also have "\<dots> \<le> (6 / 1000000000000) / (8 / 1000000000)"
    using n d by (intro frac_le) simp_all
  finally have q: "\<bar>a / b - w / ?c\<bar> \<le> 1 / 1000" by simp
  have "\<bar>w\<bar> \<le> 20000000 * ?c" using w cl by linarith
  then have "\<bar>w\<bar> / ?c \<le> 20000000" using c0 by (simp add: field_simps)
  then have "\<bar>w / ?c\<bar> \<le> 20000000" using c0 by simp
  define r where "r = a / b"
  from q \<open>\<bar>w / ?c\<bar> \<le> 20000000\<close> have "\<bar>r\<bar> \<le> 20000001" unfolding r_def by linarith
  with rnd_err_num [of r] tiny_le have "\<bar>rnd r - r\<bar> \<le> 1 / 1000"
    by linarith
  with q show ?thesis unfolding r_def by linarith
qed

text \<open>
  One bound of the range: the exponential of the rounded product \<open>y\<close> of multiplier
  and volatility, its product with the price and the tick of that product. Where the exact
  scaled price \<open>pr * exp y\<close> is between \<open>2 ^ - 1000\<close> and \<open>2 ^ 1000\<close>, all three return
  and the tick is the floor of a value that differs from the exact quotient of the
  logarithms by at most one tenth.
\<close>

lemma side_enclosure:
  fixes pr y :: real
  assumes y: "\<bar>y\<bar> \<le> 600" and lo: "1 / 2 ^ 1000 \<le> pr * exp y" and hi: "pr * exp y \<le> 2 ^ 1000"
  shows "\<exists>e. math_exp m (fround y) = Inr (Fin e)
           \<and> finite_pos (fmul (Fin pr) (Fin e))
           \<and> \<bar>of_int (tick_of m (fmul (Fin pr) (Fin e))) + 1 / 2 - (ln pr + y) / ln (10001 / 10000)\<bar>
               \<le> 6 / 10"
proof -
  let ?c = "ln (10001 / 10000 :: real)"
  define g where "g = pr * exp y"
  have g0: "0 < g" using lo unfolding g_def by (rule less_le_trans [rotated]) simp
  then have pr: "0 < pr" by (simp add: g_def zero_less_mult_iff)
  \<comment> \<open>the product of multiplier and volatility\<close>
  define x where "x = rnd y"
  have xy: "\<bar>x - y\<bar> \<le> 1 / 1000000000000"
    using rnd_err_num [of y] y tiny_le unfolding x_def by linarith
  have fx: "fround y = Fin x" unfolding x_def using y by (intro fround_small) linarith
  have x601: "\<bar>x\<bar> \<le> 601" using xy y by linarith
  \<comment> \<open>the exponential\<close>
  obtain e where E: "math_exp m (Fin x) = Inr (Fin e)"
    and ee: "\<bar>e - exp x\<bar> \<le> exp x * (2 / 1000000000000000)"
    using math_exp_value [OF x601] by blast
  have e0: "0 < e" and le: "\<bar>ln e - x\<bar> \<le> 4 / 1000000000000000"
    using ln_ratio [OF exp_gt_zero ee] by simp_all
  \<comment> \<open>the scaled price\<close>
  define z where "z = pr * e"
  have z0: "0 < z" using pr e0 by (simp add: z_def)
  have lz: "ln z = ln pr + ln e" using pr e0 by (simp add: z_def ln_mult)
  have lg: "ln g = ln pr + y" using pr by (simp add: g_def ln_mult)
  have gb: "- (1000 * ln 2) \<le> ln g" "ln g \<le> 1000 * ln 2"
    using ln_pow2_bounds [OF g0, of 1000] lo hi by (simp_all add: g_def)
  have l2: "1 / 4 \<le> ln (2 :: real)" "ln (2 :: real) < 1"
    using ln_2_ge ln_2_less_1 by simp_all
  have lgb: "\<bar>ln g\<bar> \<le> 1000" using gb l2 by linarith
  have zg: "\<bar>ln z - ln g\<bar> \<le> 2 / 1000000000000" using lz lg le xy by linarith
  have "- (1003 * ln 2) \<le> ln z" "ln z \<le> 1003 * ln 2"
    using zg gb l2 by linarith+
  then have zl: "1 / 2 ^ 1003 \<le> z" and zu: "z \<le> 2 ^ 1003"
    using ln_pow2_bounds_rev [OF z0, of 1003] by simp_all
  obtain q where Q: "fround z = Fin q" and qe: "\<bar>q - z\<bar> \<le> z * (2 / 1000000000000000)"
    and ql: "2 powr (- 1074) \<le> q" and qu: "q < 2 ^ 1024"
    using fround_value [OF zl zu] by blast
  have q0: "0 < q" and lq: "\<bar>ln q - ln z\<bar> \<le> 4 / 1000000000000000"
    using ln_ratio [OF z0 qe] by simp_all
  have F: "fmul (Fin pr) (Fin e) = Fin q" using Q by (simp add: z_def)
  \<comment> \<open>the tick\<close>
  obtain a b where ea: "\<bar>a - ln q\<bar> \<le> \<bar>ln q\<bar> / 1000000000000000 + 2 powr (- 1074)"
    and eb: "\<bar>b - ?c\<bar> \<le> 5 / 1000000000000000"
    and T: "price_to_tick m (Fin q) = Inr \<lfloor>rnd (a / b)\<rfloor>"
    using price_to_tick_value [OF ql qu, of m] by blast
  have "\<bar>a - ln g\<bar> \<le> 4 / 1000000000000"
    using ea lq zg lgb tiny_le by linarith
  from quotient_error [OF this lgb eb]
  have "\<bar>rnd (a / b) - ln g / ?c\<bar> \<le> 1 / 10" .
  moreover have "of_int \<lfloor>rnd (a / b)\<rfloor> \<le> rnd (a / b)"
    "rnd (a / b) < of_int \<lfloor>rnd (a / b)\<rfloor> + 1" by linarith+
  ultimately have "\<bar>of_int \<lfloor>rnd (a / b)\<rfloor> + 1 / 2 - ln g / ?c\<bar> \<le> 6 / 10" by linarith
  moreover have "tick_of m (fmul (Fin pr) (Fin e)) = \<lfloor>rnd (a / b)\<rfloor>"
    by (simp only: tick_of_def F T sum.case)
  moreover have "finite_pos (fmul (Fin pr) (Fin e))" using q0 by (simp only: F finite_pos_def pyfloat.case)
  ultimately show ?thesis using E fx lg by auto
qed

subsection \<open>Both bounds of the range\<close>

text \<open>
  The range for a finite positive price \<open>pr\<close> and the product \<open>y\<close> of multiplier and
  volatility, where both scaled prices are between \<open>2 ^ - 1000\<close> and \<open>2 ^ 1000\<close>: the
  function returns, and the two ticks before the rounding to the tick spacing are within
  the error of \<open>side_enclosure\<close> of the exact ones.
\<close>

lemma range_enclosure:
  fixes pr kr vr :: real
  assumes s: "0 < s" and v: "0 < vr"
    and y: "\<bar>kr * vr\<bar> \<le> 600"
    and lo: "1 / 2 ^ 1000 \<le> pr * exp (- \<bar>kr * vr\<bar>)"
    and hi: "pr * exp \<bar>kr * vr\<bar> \<le> 2 ^ 1000"
  shows "\<exists>tl tu. compute_optimal_range m (Fin pr) (Fin vr) (Fin kr) s = Inr (rounded_range tl tu s)
           \<and> \<bar>of_int tl + 1 / 2 - (ln pr - kr * vr) / ln (10001 / 10000)\<bar> \<le> 6 / 10
           \<and> \<bar>of_int tu + 1 / 2 - (ln pr + kr * vr) / ln (10001 / 10000)\<bar> \<le> 6 / 10"
proof -
  define y where "y = kr * vr"
  have pr: "0 < pr"
  proof -
    have "0 < pr * exp (- \<bar>kr * vr\<bar>)" using lo by (rule less_le_trans [rotated]) simp
    then show ?thesis by (simp add: zero_less_mult_iff)
  qed
  have mono: "pr * exp (- \<bar>y\<bar>) \<le> pr * exp t" "pr * exp t \<le> pr * exp \<bar>y\<bar>"
    if "\<bar>t\<bar> \<le> \<bar>y\<bar>" for t
    using that pr by (auto intro!: mult_left_mono)
  have reg: "1 / 2 ^ 1000 \<le> pr * exp t" "pr * exp t \<le> 2 ^ 1000" if "\<bar>t\<bar> \<le> \<bar>y\<bar>" for t
    using mono [OF that] lo hi unfolding y_def by linarith+
  \<comment> \<open>the price itself\<close>
  have "1 / 2 ^ 1000 \<le> pr" "pr \<le> 2 ^ 1000" using reg [of 0] by simp_all
  moreover have "(2 powr (- 1074) :: real) \<le> 1 / 2 ^ 1000" by (simp add: powr_minus divide_simps)
  moreover have "(2 ^ 1000 :: real) < 2 ^ 1024" by simp
  ultimately have "2 powr (- 1074) \<le> pr \<and> pr < 2 ^ 1024" by linarith
  then have P: "price_to_tick m (Fin pr) =
      (if finite_pos (Fin pr) then Inr (tick_of m (Fin pr)) else Inl (tick_error (Fin pr)))"
    by (intro price_to_tick_total) simp
  \<comment> \<open>the two bounds\<close>
  obtain el where L: "math_exp m (fround (- y)) = Inr (Fin el)"
    "finite_pos (fmul (Fin pr) (Fin el))"
    "\<bar>of_int (tick_of m (fmul (Fin pr) (Fin el))) + 1 / 2 - (ln pr + - y) / ln (10001 / 10000)\<bar> \<le> 6 / 10"
    using side_enclosure [of "- y" pr m] y reg [of "- y"] unfolding y_def [symmetric] by auto
  obtain eu where U: "math_exp m (fround y) = Inr (Fin eu)"
    "finite_pos (fmul (Fin pr) (Fin eu))"
    "\<bar>of_int (tick_of m (fmul (Fin pr) (Fin eu))) + 1 / 2 - (ln pr + y) / ln (10001 / 10000)\<bar> \<le> 6 / 10"
    using side_enclosure [of y pr m] y reg [of y] unfolding y_def [symmetric] by auto
  have "compute_optimal_range m (Fin pr) (Fin vr) (Fin kr) s =
      Inr (rounded_range (tick_of m (fmul (Fin pr) (Fin el))) (tick_of m (fmul (Fin pr) (Fin eu))) s)"
  proof -
    have ml: "fmul (fneg (Fin kr)) (Fin vr) = fround (- y)" by (simp add: y_def)
    have mu: "fmul (Fin kr) (Fin vr) = fround y" by (simp add: y_def)
    have fp: "finite_pos (Fin pr)" using pr by (simp add: finite_pos_def)
    have fv: "clamped (Fin vr) = Fin vr" using v by (simp add: clamped_def)
    show ?thesis
      unfolding compute_optimal_range_cases [OF s P]
      by (simp add: ml mu fp fv L(1,2) U(1,2) del: fmul.simps fneg.simps)
  qed
  with L(3) U(3) show ?thesis unfolding y_def by auto
qed

subsection \<open>The width of the range\<close>

lemma round_down_bounds:
  fixes t s :: int
  assumes "0 < s"
  shows "t div s * s \<le> t" and "t < t div s * s + s"
proof -
  have e: "t = t div s * s + t mod s" by simp
  have "0 \<le> t mod s" "t mod s < s" using assms by simp_all
  with e show "t div s * s \<le> t" "t < t div s * s + s" by linarith+
qed

lemma rounded_width_bounds:
  assumes s: "0 < s"
  shows "t2 - t1 + 1 \<le> snd (rounded_range t1 t2 s) - fst (rounded_range t1 t2 s)"
    and "snd (rounded_range t1 t2 s) - fst (rounded_range t1 t2 s) \<le> max s (t2 - t1 + 2 * s - 1)"
proof -
  define a where "a = t1 div s * s"
  define b where "b = t2 div s * s"
  have b1: "a \<le> t1" "t1 < a + s" and b2: "b \<le> t2" "t2 < b + s"
    unfolding a_def b_def by (rule round_down_bounds [OF s])+
  have r: "rounded_range t1 t2 s = (a, if b + s \<le> a then a + s else b + s)"
    by (simp add: rounded_range_def Let_def a_def b_def)
  show "t2 - t1 + 1 \<le> snd (rounded_range t1 t2 s) - fst (rounded_range t1 t2 s)"
    unfolding r using b1 b2 s by (cases "b + s \<le> a") simp_all
  show "snd (rounded_range t1 t2 s) - fst (rounded_range t1 t2 s) \<le> max s (t2 - t1 + 2 * s - 1)"
    unfolding r using b1 b2 s by (cases "b + s \<le> a") simp_all
qed

text \<open>
  The width grows strictly when the exact upper tick grows by more than the tick
  spacing and one tick, which absorbs the rounding of the four ticks.
\<close>

lemma width_strict:
  fixes A X1 X2 :: real
  assumes s: "0 < s" and X1: "0 \<le> X1" and X: "of_int s + 1 \<le> X2 - X1"
    and l1: "\<bar>of_int tl1 + 1 / 2 - (A - X1)\<bar> \<le> 6 / 10"
    and u1: "\<bar>of_int tu1 + 1 / 2 - (A + X1)\<bar> \<le> 6 / 10"
    and l2: "\<bar>of_int tl2 + 1 / 2 - (A - X2)\<bar> \<le> 6 / 10"
    and u2: "\<bar>of_int tu2 + 1 / 2 - (A + X2)\<bar> \<le> 6 / 10"
  shows "snd (rounded_range tl1 tu1 s) - fst (rounded_range tl1 tu1 s)
       < snd (rounded_range tl2 tu2 s) - fst (rounded_range tl2 tu2 s)"
proof -
  define w1 where "w1 = snd (rounded_range tl1 tu1 s) - fst (rounded_range tl1 tu1 s)"
  define w2 where "w2 = snd (rounded_range tl2 tu2 s) - fst (rounded_range tl2 tu2 s)"
  have "w1 \<le> max s (tu1 - tl1 + 2 * s - 1)"
    unfolding w1_def by (rule rounded_width_bounds(2) [OF s])
  then have "w1 \<le> s \<or> w1 \<le> tu1 - tl1 + 2 * s - 1" by (simp add: max_def split: if_splits)
  then have a: "(of_int w1 :: real) \<le> of_int s
              \<or> (of_int w1 :: real) \<le> of_int tu1 - of_int tl1 + 2 * of_int s - 1"
    by (metis of_int_le_iff of_int_diff of_int_add of_int_mult of_int_numeral of_int_1)
  have "tu2 - tl2 + 1 \<le> w2" unfolding w2_def by (rule rounded_width_bounds(1) [OF s])
  then have "(of_int (tu2 - tl2 + 1) :: real) \<le> of_int w2" by (simp only: of_int_le_iff)
  then have b: "of_int tu2 - of_int tl2 + 1 \<le> (of_int w2 :: real)" by simp
  have s': "(0 :: real) < of_int s" using s by simp
  have c1: "of_int tu1 \<le> A + X1 + 1 / 10" using u1 by linarith
  have c2: "A - X1 - 11 / 10 \<le> of_int tl1" using l1 by linarith
  have c3: "A + X2 - 11 / 10 \<le> of_int tu2" using u2 by linarith
  have c4: "of_int tl2 \<le> A - X2 + 1 / 10" using l2 by linarith
  have "(of_int w1 :: real) < of_int w2"
    using a b X1 X s' c1 c2 c3 c4 by linarith
  then show ?thesis unfolding w1_def w2_def by (simp only: of_int_less_iff)
qed

text \<open>
  The width does not shrink when the exact ticks move apart by a quarter of a tick, which
  is more than the error of the computed ticks.
\<close>

lemma rounded_width_mono:
  assumes s: "0 < s" and l: "tl2 \<le> tl1" and u: "tu1 \<le> tu2"
  shows "snd (rounded_range tl1 tu1 s) - fst (rounded_range tl1 tu1 s)
       \<le> snd (rounded_range tl2 tu2 s) - fst (rounded_range tl2 tu2 s)"
proof -
  have w: "snd (rounded_range t1 t2 s) - fst (rounded_range t1 t2 s)
         = (if t2 div s + 1 \<le> t1 div s then 1 else t2 div s + 1 - t1 div s) * s" for t1 t2
  proof -
    have "(t2 div s + 1 \<le> t1 div s) = (t2 div s * s + s \<le> t1 div s * s)"
    proof -
      have "(t2 div s + 1 \<le> t1 div s) = ((t2 div s + 1) * s \<le> t1 div s * s)"
        using s by simp
      then show ?thesis by (simp add: algebra_simps)
    qed
    then show ?thesis by (simp add: rounded_range_def Let_def algebra_simps)
  qed
  have p: "tl2 div s \<le> tl1 div s" using l s by (rule zdiv_mono1)
  have q: "tu1 div s \<le> tu2 div s" using u s by (rule zdiv_mono1)
  have "(if tu1 div s + 1 \<le> tl1 div s then 1 else tu1 div s + 1 - tl1 div s)
      \<le> (if tu2 div s + 1 \<le> tl2 div s then 1 else tu2 div s + 1 - tl2 div s)"
    using p q by auto
  then show ?thesis unfolding w using s by (intro mult_right_mono) simp_all
qed

lemma tick_order:
  fixes Y1 Y2 :: real
  assumes "\<bar>of_int t1 + 1 / 2 - Y1\<bar> \<le> 6 / 10" and "\<bar>of_int t2 + 1 / 2 - Y2\<bar> \<le> 6 / 10"
    and "Y1 + 1 / 4 \<le> Y2"
  shows "t1 \<le> t2"
proof -
  have "(of_int t1 :: real) < of_int t2 + 1" using assms by linarith
  then have "(of_int t1 :: real) < of_int (t2 + 1)" by simp
  then have "t1 < t2 + 1" by (simp only: of_int_less_iff)
  then show ?thesis by simp
qed

lemma width_mono:
  fixes A X1 X2 :: real
  assumes s: "0 < s" and X: "1 / 4 \<le> X2 - X1"
    and l1: "\<bar>of_int tl1 + 1 / 2 - (A - X1)\<bar> \<le> 6 / 10"
    and u1: "\<bar>of_int tu1 + 1 / 2 - (A + X1)\<bar> \<le> 6 / 10"
    and l2: "\<bar>of_int tl2 + 1 / 2 - (A - X2)\<bar> \<le> 6 / 10"
    and u2: "\<bar>of_int tu2 + 1 / 2 - (A + X2)\<bar> \<le> 6 / 10"
  shows "snd (rounded_range tl1 tu1 s) - fst (rounded_range tl1 tu1 s)
       \<le> snd (rounded_range tl2 tu2 s) - fst (rounded_range tl2 tu2 s)"
proof (rule rounded_width_mono [OF s])
  show "tl2 \<le> tl1" by (rule tick_order [OF l2 l1]) (use X in linarith)
  show "tu1 \<le> tu2" by (rule tick_order [OF u1 u2]) (use X in linarith)
qed

subsection \<open>The width grows with volatility and multiplier\<close>

text \<open>
  C5 (amended). For a positive tick spacing \<open>s\<close>, a price \<open>pr\<close>, multipliers
  \<open>0 \<le> k1 \<le> k2\<close> and volatilities \<open>0 < v1 \<le> v2\<close> (a fixed multiplier is \<open>k1 = k2\<close>, a
  fixed volatility \<open>v1 = v2\<close>) such that \<open>k2 * v2 \<le> 600\<close> and the exact scaled prices
  \<open>pr * exp (- (k2 * v2))\<close> and \<open>pr * exp (k2 * v2)\<close> are between \<open>2 ^ - 1000\<close> and
  \<open>2 ^ 1000\<close>: \<open>compute_optimal_range\<close> returns for both pairs of arguments; the width
  \<open>tick_upper - tick_lower\<close> for \<open>(v2, k2)\<close> is strictly greater than the width for
  \<open>(v1, k1)\<close> whenever the product of multiplier and volatility grows by at least
  \<open>(s + 1) * ln 1.0001\<close>, and it is not smaller whenever the product grows by at least
  \<open>ln 1.0001 / 4\<close>. This holds for every C library whose \<open>exp\<close> and \<open>log\<close> are within
  one ulp of the exact values.
\<close>

theorem range_width_increases:
  fixes pr k1 k2 v1 v2 :: real
  assumes s: "0 < s" and k: "0 \<le> k1" "k1 \<le> k2" and v: "0 < v1" "v1 \<le> v2"
    and y: "k2 * v2 \<le> 600"
    and lo: "1 / 2 ^ 1000 \<le> pr * exp (- (k2 * v2))"
    and hi: "pr * exp (k2 * v2) \<le> 2 ^ 1000"
  shows "\<exists>lo1 hi1 lo2 hi2.
           compute_optimal_range m (Fin pr) (Fin v1) (Fin k1) s = Inr (lo1, hi1)
         \<and> compute_optimal_range m (Fin pr) (Fin v2) (Fin k2) s = Inr (lo2, hi2)
         \<and> (ln (10001 / 10000) / 4 \<le> k2 * v2 - k1 * v1 \<longrightarrow> hi1 - lo1 \<le> hi2 - lo2)
         \<and> ((of_int s + 1) * ln (10001 / 10000) \<le> k2 * v2 - k1 * v1 \<longrightarrow>
              hi1 - lo1 < hi2 - lo2)"
proof -
  let ?c = "ln (10001 / 10000 :: real)"
  have c0: "0 < ?c" using tick_base_lower by linarith
  have pr: "0 < pr"
  proof -
    have "0 < pr * exp (- (k2 * v2))" using lo by (rule less_le_trans [rotated]) simp
    then show ?thesis by (simp add: zero_less_mult_iff)
  qed
  have x1: "0 \<le> k1 * v1" using k v by simp
  have x12: "k1 * v1 \<le> k2 * v2" using k v by (intro mult_mono) simp_all
  have a1: "\<bar>k1 * v1\<bar> = k1 * v1" and a2: "\<bar>k2 * v2\<bar> = k2 * v2" using x1 x12 by simp_all
  have "pr * exp (- (k2 * v2)) \<le> pr * exp (- (k1 * v1))"
    and "pr * exp (k1 * v1) \<le> pr * exp (k2 * v2)"
    using pr x12 by (simp_all add: mult_left_mono)
  with lo hi have r1: "1 / 2 ^ 1000 \<le> pr * exp (- \<bar>k1 * v1\<bar>)" "pr * exp \<bar>k1 * v1\<bar> \<le> 2 ^ 1000"
    unfolding a1 by linarith+
  have v2: "0 < v2" using v by linarith
  obtain tl1 tu1 where R1:
    "compute_optimal_range m (Fin pr) (Fin v1) (Fin k1) s = Inr (rounded_range tl1 tu1 s)"
    "\<bar>of_int tl1 + 1 / 2 - (ln pr - k1 * v1) / ?c\<bar> \<le> 6 / 10"
    "\<bar>of_int tu1 + 1 / 2 - (ln pr + k1 * v1) / ?c\<bar> \<le> 6 / 10"
    using range_enclosure [OF s v(1) _ r1, of m] x12 y a1 by auto
  obtain tl2 tu2 where R2:
    "compute_optimal_range m (Fin pr) (Fin v2) (Fin k2) s = Inr (rounded_range tl2 tu2 s)"
    "\<bar>of_int tl2 + 1 / 2 - (ln pr - k2 * v2) / ?c\<bar> \<le> 6 / 10"
    "\<bar>of_int tu2 + 1 / 2 - (ln pr + k2 * v2) / ?c\<bar> \<le> 6 / 10"
    using range_enclosure [OF s v2, of k2 pr m] lo hi y a2 by auto
  have W: "snd (rounded_range tl1 tu1 s) - fst (rounded_range tl1 tu1 s)
         < snd (rounded_range tl2 tu2 s) - fst (rounded_range tl2 tu2 s)"
    if d: "(of_int s + 1) * ?c \<le> k2 * v2 - k1 * v1"
  proof (rule width_strict [OF s, where A = "ln pr / ?c" and ?X1.0 = "k1 * v1 / ?c"
        and ?X2.0 = "k2 * v2 / ?c"])
    show "0 \<le> k1 * v1 / ?c" using x1 c0 by simp
    have "of_int s + 1 \<le> (k2 * v2 - k1 * v1) / ?c" using d c0 by (simp add: field_simps)
    then show "of_int s + 1 \<le> k2 * v2 / ?c - k1 * v1 / ?c" by (simp add: diff_divide_distrib)
    show "\<bar>of_int tl1 + 1 / 2 - (ln pr / ?c - k1 * v1 / ?c)\<bar> \<le> 6 / 10"
      using R1(2) by (simp only: diff_divide_distrib)
    show "\<bar>of_int tu1 + 1 / 2 - (ln pr / ?c + k1 * v1 / ?c)\<bar> \<le> 6 / 10"
      using R1(3) by (simp only: add_divide_distrib)
    show "\<bar>of_int tl2 + 1 / 2 - (ln pr / ?c - k2 * v2 / ?c)\<bar> \<le> 6 / 10"
      using R2(2) by (simp only: diff_divide_distrib)
    show "\<bar>of_int tu2 + 1 / 2 - (ln pr / ?c + k2 * v2 / ?c)\<bar> \<le> 6 / 10"
      using R2(3) by (simp only: add_divide_distrib)
  qed
  have E: "\<bar>of_int tl1 + 1 / 2 - (ln pr / ?c - k1 * v1 / ?c)\<bar> \<le> 6 / 10"
      "\<bar>of_int tu1 + 1 / 2 - (ln pr / ?c + k1 * v1 / ?c)\<bar> \<le> 6 / 10"
      "\<bar>of_int tl2 + 1 / 2 - (ln pr / ?c - k2 * v2 / ?c)\<bar> \<le> 6 / 10"
      "\<bar>of_int tu2 + 1 / 2 - (ln pr / ?c + k2 * v2 / ?c)\<bar> \<le> 6 / 10"
    using R1(2,3) R2(2,3) by (simp_all only: diff_divide_distrib add_divide_distrib)
  have M: "snd (rounded_range tl1 tu1 s) - fst (rounded_range tl1 tu1 s)
         \<le> snd (rounded_range tl2 tu2 s) - fst (rounded_range tl2 tu2 s)"
    if d: "?c / 4 \<le> k2 * v2 - k1 * v1"
  proof (rule width_mono [OF s _ E])
    have "1 / 4 \<le> (k2 * v2 - k1 * v1) / ?c" using d c0 by (simp add: field_simps)
    then show "1 / 4 \<le> k2 * v2 / ?c - k1 * v1 / ?c" by (simp add: diff_divide_distrib)
  qed
  show ?thesis
  proof (intro exI conjI impI)
    show "compute_optimal_range m (Fin pr) (Fin v1) (Fin k1) s
        = Inr (fst (rounded_range tl1 tu1 s), snd (rounded_range tl1 tu1 s))"
      by (simp add: R1(1))
    show "compute_optimal_range m (Fin pr) (Fin v2) (Fin k2) s
        = Inr (fst (rounded_range tl2 tu2 s), snd (rounded_range tl2 tu2 s))"
      by (simp add: R2(1))
    assume "?c / 4 \<le> k2 * v2 - k1 * v1"
    then show "snd (rounded_range tl1 tu1 s) - fst (rounded_range tl1 tu1 s)
       \<le> snd (rounded_range tl2 tu2 s) - fst (rounded_range tl2 tu2 s)" by (rule M)
  next
    assume "(of_int s + 1) * ?c \<le> k2 * v2 - k1 * v1"
    then show "snd (rounded_range tl1 tu1 s) - fst (rounded_range tl1 tu1 s)
       < snd (rounded_range tl2 tu2 s) - fst (rounded_range tl2 tu2 s)" by (rule W)
  qed
qed

subsection \<open>Where the function returns\<close>

lemma clamped_pos: "0 < rnd (1 / 100)" and clamped_bound: "rnd (1 / 100) \<le> 2 / 100"
  and clamped_near: "\<bar>rnd (1 / 100) - 1 / 100\<bar> \<le> 1 / 1000000000000000"
  using rnd_err_num [of "1 / 100"] tiny_le by linarith+

lemma clamped_idem: "clamped (clamped v) = clamped v"
  using clamped_pos by (simp add: clamped_def)

lemma compute_optimal_range_clamped:
  "compute_optimal_range m p (clamped v) k s = compute_optimal_range m p v k s"
  unfolding compute_optimal_range_def Let_def clamped_def [symmetric] clamped_idem ..

lemma range_returns:
  fixes pr kr vr :: real
  assumes s: "0 < s" and c: "clamped v = Fin vr"
    and y: "\<bar>kr * vr\<bar> \<le> 600"
    and lo: "1 / 2 ^ 1000 \<le> pr * exp (- \<bar>kr * vr\<bar>)"
    and hi: "pr * exp \<bar>kr * vr\<bar> \<le> 2 ^ 1000"
  shows "\<exists>lo hi. compute_optimal_range m (Fin pr) v (Fin kr) s = Inr (lo, hi)"
proof -
  have "0 < vr"
  proof (cases "fle0 v")
    case True
    with c clamped_pos show ?thesis by (simp add: clamped_def)
  next
    case False
    with c show ?thesis by (simp add: clamped_def not_le)
  qed
  from range_enclosure [OF s this y lo hi, of m]
  obtain tl tu where "compute_optimal_range m (Fin pr) (Fin vr) (Fin kr) s = Inr (rounded_range tl tu s)"
    by blast
  then have "compute_optimal_range m (Fin pr) v (Fin kr) s
      = Inr (fst (rounded_range tl tu s), snd (rounded_range tl tu s))"
    using compute_optimal_range_clamped [of m "Fin pr" v "Fin kr" s] c by simp
  then show ?thesis by blast
qed

lemma compute_optimal_range_post:
  assumes "0 < s" and "compute_optimal_range m p v k s = Inr (lo, hi)"
  shows "lo < hi \<and> s dvd lo \<and> s dvd hi"
  using assms
  by (auto simp: compute_optimal_range_def Let_def round_tick_def
           split: sum.splits if_splits)

lemma region_moderate:
  fixes pr y :: real
  assumes y: "\<bar>y\<bar> \<le> 600" and l: "1 / 2 ^ 40 \<le> pr" and u: "pr \<le> 2 ^ 40"
  shows "1 / 2 ^ 1000 \<le> pr * exp (- \<bar>y\<bar>)" and "pr * exp \<bar>y\<bar> \<le> 2 ^ 1000"
proof -
  have pr: "0 < pr" using l by (rule less_le_trans [rotated]) simp
  have a: "\<bar>- \<bar>y\<bar>\<bar> \<le> 601" and b: "\<bar>\<bar>y\<bar>\<bar> \<le> 601" using y by simp_all
  have "1 / 2 ^ 40 * (1 / 3 ^ 601) \<le> pr * exp (- \<bar>y\<bar>)"
    using l exp_range(1) [OF a] by (intro mult_mono) simp_all
  moreover have "(1 / 2 ^ 1000 :: real) \<le> 1 / 2 ^ 40 * (1 / 3 ^ 601)" by (simp add: divide_simps)
  ultimately show "1 / 2 ^ 1000 \<le> pr * exp (- \<bar>y\<bar>)" by linarith
  have "pr * exp \<bar>y\<bar> \<le> 2 ^ 40 * 3 ^ 601"
    using u exp_range(2) [OF b] pr by (intro mult_mono) simp_all
  moreover have "(2 ^ 40 * 3 ^ 601 :: real) \<le> 2 ^ 1000" by simp
  ultimately show "pr * exp \<bar>y\<bar> \<le> 2 ^ 1000" by linarith
qed

lemma is_float_2450: "is_float (Fin 2450)"
proof -
  have "expo 2450 = 11" by (rule expo_eq) simp_all
  then have "rnd 2450 = 2450"
    by (rule rnd_exact [where n = "2450 * 2 ^ 41"]) (simp add: powr_minus)
  then show ?thesis by (simp add: is_float_def)
qed

lemma is_float_small: "is_float (Fin (1 / 2 ^ 1000))"
proof -
  have "expo (1 / 2 ^ 1000) = - 1000"
    by (rule expo_eq) (simp_all add: powr_minus divide_simps)
  then have "rnd (1 / 2 ^ 1000) = 1 / 2 ^ 1000"
    by (rule rnd_exact [where n = "2 ^ 52"]) (simp add: powr_minus divide_simps)
  then show ?thesis by (simp add: is_float_def)
qed

text \<open>
  C10 (amended). For a positive tick spacing and a price that is a float, the
  result of \<open>compute_optimal_range\<close> is determined as follows. It raises the error of
  \<open>price_to_tick\<close> if the price is not finite and positive (\<open>ValueError\<close> for zero, a
  negative price and NaN, \<open>OverflowError\<close> for the positive infinity); otherwise
  \<open>OverflowError\<close> if \<open>math.exp\<close> overflows for the negated or the plain product of
  multiplier and clamped volatility; otherwise the error of \<open>price_to_tick\<close> if the lower,
  or else the upper, scaled price is not finite and positive; and in every other case it
  returns the two ticks rounded to the tick spacing. Whenever it returns,
  \<open>tick_lower < tick_upper\<close> and both are multiples of the tick spacing. It does return
  whenever price, multiplier and clamped volatility are finite, the product \<open>x\<close> of the
  latter two has magnitude at most 600 and the exact scaled prices \<open>price * exp (- \<bar>x\<bar>)\<close>
  and \<open>price * exp \<bar>x\<bar>\<close> are between \<open>2 ^ - 1000\<close> and \<open>2 ^ 1000\<close>.
\<close>

theorem compute_optimal_range_valid:
  assumes s: "0 < s" and p: "is_float p"
  shows "compute_optimal_range m p v k s =
     (if \<not> finite_pos p then Inl (tick_error p)
      else case math_exp m (fmul (fneg k) (clamped v)) of
             Inl e \<Rightarrow> Inl OverflowError
           | Inr e_lower \<Rightarrow>
        (case math_exp m (fmul k (clamped v)) of
             Inl e \<Rightarrow> Inl OverflowError
           | Inr e_upper \<Rightarrow>
         if \<not> finite_pos (fmul p e_lower) then Inl (tick_error (fmul p e_lower))
         else if \<not> finite_pos (fmul p e_upper) then Inl (tick_error (fmul p e_upper))
         else Inr (rounded_range (tick_of m (fmul p e_lower)) (tick_of m (fmul p e_upper)) s)))
   \<and> (\<forall>lo hi. compute_optimal_range m p v k s = Inr (lo, hi) \<longrightarrow>
         lo < hi \<and> s dvd lo \<and> s dvd hi)
   \<and> (\<forall>pr kr vr. p = Fin pr \<and> k = Fin kr \<and> clamped v = Fin vr
         \<and> \<bar>kr * vr\<bar> \<le> 600
         \<and> 1 / 2 ^ 1000 \<le> pr * exp (- \<bar>kr * vr\<bar>) \<and> pr * exp \<bar>kr * vr\<bar> \<le> 2 ^ 1000 \<longrightarrow>
         (\<exists>lo hi. compute_optimal_range m p v k s = Inr (lo, hi)))"
proof (intro conjI allI impI)
  show "compute_optimal_range m p v k s =
     (if \<not> finite_pos p then Inl (tick_error p)
      else case math_exp m (fmul (fneg k) (clamped v)) of
             Inl e \<Rightarrow> Inl OverflowError
           | Inr e_lower \<Rightarrow>
        (case math_exp m (fmul k (clamped v)) of
             Inl e \<Rightarrow> Inl OverflowError
           | Inr e_upper \<Rightarrow>
         if \<not> finite_pos (fmul p e_lower) then Inl (tick_error (fmul p e_lower))
         else if \<not> finite_pos (fmul p e_upper) then Inl (tick_error (fmul p e_upper))
         else Inr (rounded_range (tick_of m (fmul p e_lower)) (tick_of m (fmul p e_upper)) s)))"
    by (rule compute_optimal_range_outcome [OF s p])
next
  fix lo hi assume "compute_optimal_range m p v k s = Inr (lo, hi)"
  from compute_optimal_range_post [OF s this]
  show "lo < hi" "s dvd lo" "s dvd hi" by simp_all
next
  fix pr kr vr
  assume "p = Fin pr \<and> k = Fin kr \<and> clamped v = Fin vr
         \<and> \<bar>kr * vr\<bar> \<le> 600
         \<and> 1 / 2 ^ 1000 \<le> pr * exp (- \<bar>kr * vr\<bar>) \<and> pr * exp \<bar>kr * vr\<bar> \<le> 2 ^ 1000"
  then show "\<exists>lo hi. compute_optimal_range m p v k s = Inr (lo, hi)"
    using range_returns [OF s, of v vr kr pr m] by simp
qed

theorem compute_optimal_range_valid_witness:
  "\<forall>m. is_float (Fin 2450)
     \<and> (\<exists>lo hi. compute_optimal_range m (Fin 2450) (Fin 0) (Fin 2) 60 = Inr (lo, hi)
          \<and> lo < hi \<and> 60 dvd lo \<and> 60 dvd hi)"
proof (intro allI conjI)
  fix m
  show "is_float (Fin 2450)" by (rule is_float_2450)
  have c: "clamped (Fin 0) = Fin (rnd (1 / 100))" by (simp add: clamped_def)
  have y: "\<bar>2 * rnd (1 / 100)\<bar> \<le> 600" using clamped_pos clamped_bound by linarith
  have s: "(0 :: int) < 60" by simp
  note T = compute_optimal_range_valid [OF s is_float_2450, of m "Fin 0" "Fin 2"]
  have "\<exists>lo hi. compute_optimal_range m (Fin 2450) (Fin 0) (Fin 2) 60 = Inr (lo, hi)"
    using T [THEN conjunct2, THEN conjunct2] c y region_moderate [OF y, of 2450] by simp
  then obtain lo hi where r: "compute_optimal_range m (Fin 2450) (Fin 0) (Fin 2) 60 = Inr (lo, hi)"
    by blast
  with T [THEN conjunct2, THEN conjunct1] have "lo < hi \<and> 60 dvd lo \<and> 60 dvd hi" by blast
  with r show "\<exists>lo hi. compute_optimal_range m (Fin 2450) (Fin 0) (Fin 2) 60 = Inr (lo, hi)
          \<and> lo < hi \<and> 60 dvd lo \<and> 60 dvd hi" by blast
qed

subsection \<open>Arguments for which the function raises\<close>

lemma exp_ge_pow2: "2 ^ n \<le> exp (real n)"
proof -
  have "(2 :: real) \<le> exp 1" using exp_ge_add_one_self [of "1 :: real"] by simp
  then have "(2 :: real) ^ n \<le> exp 1 ^ n" by (intro power_mono) simp_all
  also have "\<dots> = exp (real n * 1)" by (simp only: exp_of_nat_mult)
  finally show ?thesis by simp
qed

lemma math_exp_nonpos:
  assumes "x \<le> 0"
  shows "\<exists>e. math_exp m (Fin x) = Inr (Fin e)"
proof -
  define e where "e = (if x = 0 then 1 else libm_value (exp x) (lib_exp m x))"
  have "\<bar>e - exp x\<bar> \<le> \<bar>exp x\<bar> / 1000000000000000 + 2 powr (- 1074)"
    using libm_value_err [of "exp x" "lib_exp m x"] by (simp add: e_def)
  moreover have "exp x \<le> 1" "0 < exp x" using assms by simp_all
  ultimately have "e \<le> 3" using tiny_le by linarith
  moreover have "(3 :: real) < 2 ^ 1024" by simp
  ultimately have "\<not> 2 ^ 1024 \<le> e" by linarith
  then have "math_exp m (Fin x) = Inr (Fin e)" by (simp add: e_def Let_def)
  then show ?thesis by blast
qed

lemma math_exp_overflow:
  assumes "1100 \<le> x"
  shows "math_exp m (Fin x) = Inl OverflowError"
proof -
  define e where "e = libm_value (exp x) (lib_exp m x)"
  have "\<bar>e - exp x\<bar> \<le> \<bar>exp x\<bar> / 1000000000000000 + 2 powr (- 1074)"
    unfolding e_def by (rule libm_value_err)
  moreover have "2 ^ 1100 \<le> exp x"
  proof -
    have "(2 :: real) ^ 1100 \<le> exp (real 1100)" by (rule exp_ge_pow2)
    also have "\<dots> \<le> exp x" using assms by simp
    finally show ?thesis .
  qed
  moreover have "(2 ^ 1024 :: real) \<le> 2 ^ 1100 / 2 - 1" by simp
  ultimately have "2 ^ 1024 \<le> e" using tiny_le exp_gt_zero [of x] by linarith
  moreover have "x \<noteq> 0" using assms by linarith
  ultimately show ?thesis by (simp add: e_def Let_def)
qed

lemma range_overflow:
  "compute_optimal_range m (Fin 1) (Fin 1) (Fin 2000) 60 = Inl OverflowError"
proof -
  have s: "(0 :: int) < 60" by simp
  have c: "clamped (Fin 1) = Fin 1" by (simp add: clamped_def)
  have fp: "finite_pos (Fin 1)" by (simp add: finite_pos_def)
  have ml: "fmul (fneg (Fin 2000)) (Fin 1) = Fin (rnd (- 2000))"
    using fround_small [of "- 2000"] by simp
  have mu: "fmul (Fin 2000) (Fin 1) = Fin (rnd 2000)"
    using fround_small [of 2000] by simp
  have "rnd (- 2000) \<le> 0" by (rule rnd_nonpos) simp
  then obtain e where L: "math_exp m (Fin (rnd (- 2000))) = Inr (Fin e)"
    using math_exp_nonpos by blast
  have "1100 \<le> rnd 2000" using rnd_err_num [of 2000] tiny_le by linarith
  then have U: "math_exp m (Fin (rnd 2000)) = Inl OverflowError" by (rule math_exp_overflow)
  show ?thesis
    unfolding compute_optimal_range_outcome [OF s is_float_one] c ml mu
    by (simp add: fp L U del: math_exp.simps)
qed

lemma range_underflow_gen:
  assumes q: "is_float (Fin q)" "0 < q" "q \<le> 1 / 2 ^ 1000"
  shows "compute_optimal_range m (Fin q) (Fin 1) (Fin 100) 60 = Inl ValueError"
proof -
  have s: "(0 :: int) < 60" by simp
  have c: "clamped (Fin 1) = Fin 1" by (simp add: clamped_def)
  have fp: "finite_pos (Fin q)" using q(2) by (simp add: finite_pos_def)
  have ml: "fmul (fneg (Fin 100)) (Fin 1) = Fin (rnd (- 100))"
    using fround_small [of "- 100"] by simp
  have mu: "fmul (Fin 100) (Fin 1) = Fin (rnd 100)"
    using fround_small [of 100] by simp
  have xl: "\<bar>rnd (- 100)\<bar> \<le> 601" "rnd (- 100) \<le> - 99"
    using rnd_err_num [of "- 100"] tiny_le by linarith+
  have xu: "\<bar>rnd 100\<bar> \<le> 601" using rnd_err_num [of 100] tiny_le by linarith
  obtain el where L: "math_exp m (Fin (rnd (- 100))) = Inr (Fin el)"
    and el: "\<bar>el - exp (rnd (- 100))\<bar> \<le> exp (rnd (- 100)) * (2 / 1000000000000000)"
    using math_exp_value [OF xl(1)] by blast
  obtain eu where U: "math_exp m (Fin (rnd 100)) = Inr (Fin eu)"
    using math_exp_value [OF xu] by blast
  have "exp (rnd (- 100)) \<le> exp (- real 99)" using xl(2) by simp
  also have "\<dots> = 1 / exp (real 99)" by (simp only: exp_minus inverse_eq_divide)
  also have "\<dots> \<le> 1 / 2 ^ 99"
    using exp_ge_pow2 [of 99] by (intro divide_left_mono) simp_all
  finally have "exp (rnd (- 100)) \<le> 1 / 2 ^ 99" .
  with el exp_gt_zero [of "rnd (- 100)"] have "\<bar>el\<bar> \<le> 2 * (1 / 2 ^ 99)" by linarith
  then have "\<bar>q * el\<bar> \<le> 1 / 2 ^ 1000 * (2 * (1 / 2 ^ 99))"
    unfolding abs_mult using q(2,3) by (intro mult_mono) simp_all
  moreover have "(1 / 2 ^ 1000 * (2 * (1 / 2 ^ 99)) :: real) < 2 powr (- 1075)"
    by (simp add: powr_minus divide_simps)
  ultimately have "\<bar>q * el\<bar> < 2 powr (- 1075)" by linarith
  then have "rnd (q * el) = 0" by (rule rnd_tiny)
  then have pl: "fmul (Fin q) (Fin el) = Fin 0"
    by (simp add: fround_def Let_def)
  have nl: "\<not> finite_pos (Fin 0)" "tick_error (Fin 0) = ValueError"
    by (simp_all add: finite_pos_def tick_error_def)
  show ?thesis
    unfolding compute_optimal_range_outcome [OF s q(1)] c ml mu
    by (simp add: fp L U pl nl del: math_exp.simps fmul.simps)
qed

lemma range_underflow:
  "compute_optimal_range m (Fin (1 / 2 ^ 1000)) (Fin 1) (Fin 100) 60 = Inl ValueError"
  by (rule range_underflow_gen [OF is_float_small]) simp_all

text \<open>
  C10 (as stated) fails: for a positive price and a positive tick spacing the
  function raises instead of returning a pair when an exponential or a scaled price
  leaves the range of a double. \<open>compute_optimal_range(1.0, 1.0, 2000.0, 60)\<close> raises
  \<open>OverflowError\<close> at \<open>math.exp(2000.0)\<close>, and
  \<open>compute_optimal_range(2.0 ** -1000, 1.0, 100.0, 60)\<close> raises \<open>ValueError\<close> in
  \<open>price_to_tick\<close>, because the lower price underflows to zero.
\<close>

theorem range_raises_counterexample:
  "\<forall>m. compute_optimal_range m (Fin 1) (Fin 1) (Fin 2000) 60 = Inl OverflowError
     \<and> compute_optimal_range m (Fin (1 / 2 ^ 1000)) (Fin 1) (Fin 100) 60 = Inl ValueError"
  using range_overflow range_underflow by blast

subsection \<open>Evaluation at price 1 and tick spacing 60\<close>

lemma tick_quot:
  fixes y :: real
  assumes "0 \<le> y"
  shows "y * 10000 \<le> y / ln (10001 / 10000)"
    and "y / ln (10001 / 10000) \<le> y * (100000000 / 9999)"
proof -
  let ?c = "ln (10001 / 10000 :: real)"
  have cl: "9999 / 100000000 \<le> ?c" and cu: "?c < 1 / 10000"
    by (rule tick_base_lower, rule tick_base_upper)
  have c0: "0 < ?c" using cl by linarith
  have "y * (10000 * ?c) \<le> y * 1" using cu assms by (intro mult_left_mono) simp_all
  then show "y * 10000 \<le> y / ?c" using c0 by (simp add: field_simps)
  have "y * 1 \<le> y * (100000000 / 9999 * ?c)" using cl assms by (intro mult_left_mono) simp_all
  then show "y / ?c \<le> y * (100000000 / 9999)" using c0 by (simp add: field_simps)
qed

lemma div_pin:
  fixes t q :: int
  assumes "q * 60 \<le> t" and "t < q * 60 + 60"
  shows "t div 60 = q"
  using assms by linarith

lemma unit_eval:
  fixes kr vr Y A B :: real and ql qu :: int
  assumes v: "0 < vr" and y: "\<bar>kr * vr\<bar> \<le> 600"
    and Y: "Y = kr * vr / ln (10001 / 10000)"
    and A: "A = of_int (ql * 60)" and B: "B = of_int (qu * 60)"
    and L: "A + 2 \<le> - Y" "- Y \<le> A + 59"
    and U: "B + 2 \<le> Y" "Y \<le> B + 59"
  shows "compute_optimal_range m (Fin 1) (Fin vr) (Fin kr) 60
       = Inr (ql * 60, if qu * 60 + 60 \<le> ql * 60 then ql * 60 + 60 else qu * 60 + 60)"
proof -
  have s: "(0 :: int) < 60" by simp
  obtain tl tu where R:
    "compute_optimal_range m (Fin 1) (Fin vr) (Fin kr) 60 = Inr (rounded_range tl tu 60)"
    "\<bar>of_int tl + 1 / 2 - (ln 1 - kr * vr) / ln (10001 / 10000)\<bar> \<le> 6 / 10"
    "\<bar>of_int tu + 1 / 2 - (ln 1 + kr * vr) / ln (10001 / 10000)\<bar> \<le> 6 / 10"
    using range_enclosure [OF s v y region_moderate [OF y, of 1], of m] by auto
  have l: "\<bar>of_int tl + 1 / 2 - (- Y)\<bar> \<le> 6 / 10" using R(2) by (simp add: Y)
  have u: "\<bar>of_int tu + 1 / 2 - Y\<bar> \<le> 6 / 10" using R(3) by (simp add: Y)
  have "A \<le> of_int tl" "of_int tl < A + 60" using l L by linarith+
  then have "(of_int (ql * 60) :: real) \<le> of_int tl" "(of_int tl :: real) < of_int (ql * 60 + 60)"
    by (simp_all add: A)
  then have tl: "ql * 60 \<le> tl" "tl < ql * 60 + 60" by (simp_all only: of_int_le_iff of_int_less_iff)
  have "B \<le> of_int tu" "of_int tu < B + 60" using u U by linarith+
  then have "(of_int (qu * 60) :: real) \<le> of_int tu" "(of_int tu :: real) < of_int (qu * 60 + 60)"
    by (simp_all add: B)
  then have tu: "qu * 60 \<le> tu" "tu < qu * 60 + 60" by (simp_all only: of_int_le_iff of_int_less_iff)
  have "tl div 60 = ql" "tu div 60 = qu" using tl tu by (simp_all add: div_pin)
  then show ?thesis by (simp add: R(1) rounded_range_def Let_def)
qed

lemma unit_small_1: "compute_optimal_range m (Fin 1) (Fin (1 / 1024)) (Fin 1) 60 = Inr (- 60, 60)"
proof -
  define Y where "Y = 1 / 1024 / ln (10001 / 10000 :: real)"
  have b: "1 / 1024 * 10000 \<le> Y" "Y \<le> 1 / 1024 * (100000000 / 9999)"
    unfolding Y_def by (rule tick_quot; simp)+
  have "compute_optimal_range m (Fin 1) (Fin (1 / 1024)) (Fin 1) 60
       = Inr ((- 1) * 60, if (0 :: int) * 60 + 60 \<le> (- 1) * 60 then (- 1) * 60 + 60 else 0 * 60 + 60)"
  proof (rule unit_eval [where Y = Y and A = "- 60" and B = 0])
    show "Y = 1 * (1 / 1024) / ln (10001 / 10000)" by (simp add: Y_def)
    show "- 60 + 2 \<le> - Y" "- Y \<le> - 60 + 59" "0 + 2 \<le> Y" "Y \<le> 0 + 59"
      using b by linarith+
  qed simp_all
  then show ?thesis by simp
qed

lemma unit_small_2: "compute_optimal_range m (Fin 1) (Fin (5 / 4096)) (Fin 1) 60 = Inr (- 60, 60)"
proof -
  define Y where "Y = 5 / 4096 / ln (10001 / 10000 :: real)"
  have b: "5 / 4096 * 10000 \<le> Y" "Y \<le> 5 / 4096 * (100000000 / 9999)"
    unfolding Y_def by (rule tick_quot; simp)+
  have "compute_optimal_range m (Fin 1) (Fin (5 / 4096)) (Fin 1) 60
       = Inr ((- 1) * 60, if (0 :: int) * 60 + 60 \<le> (- 1) * 60 then (- 1) * 60 + 60 else 0 * 60 + 60)"
  proof (rule unit_eval [where Y = Y and A = "- 60" and B = 0])
    show "Y = 1 * (5 / 4096) / ln (10001 / 10000)" by (simp add: Y_def)
    show "- 60 + 2 \<le> - Y" "- Y \<le> - 60 + 59" "0 + 2 \<le> Y" "Y \<le> 0 + 59"
      using b by linarith+
  qed simp_all
  then show ?thesis by simp
qed

lemma unit_small_3: "compute_optimal_range m (Fin 1) (Fin (1 / 1024)) (Fin (5 / 4)) 60 = Inr (- 60, 60)"
proof -
  define Y where "Y = 5 / 4096 / ln (10001 / 10000 :: real)"
  have b: "5 / 4096 * 10000 \<le> Y" "Y \<le> 5 / 4096 * (100000000 / 9999)"
    unfolding Y_def by (rule tick_quot; simp)+
  have "compute_optimal_range m (Fin 1) (Fin (1 / 1024)) (Fin (5 / 4)) 60
       = Inr ((- 1) * 60, if (0 :: int) * 60 + 60 \<le> (- 1) * 60 then (- 1) * 60 + 60 else 0 * 60 + 60)"
  proof (rule unit_eval [where Y = Y and A = "- 60" and B = 0])
    show "Y = 5 / 4 * (1 / 1024) / ln (10001 / 10000)" by (simp add: Y_def)
    show "- 60 + 2 \<le> - Y" "- Y \<le> - 60 + 59" "0 + 2 \<le> Y" "Y \<le> 0 + 59"
      using b by linarith+
  qed simp_all
  then show ?thesis by simp
qed

lemma unit_clamped: "compute_optimal_range m (Fin 1) (Fin 0) (Fin 1) 60 = Inr (- 120, 120)"
proof -
  define r where "r = rnd (1 / 100)"
  define Y where "Y = r / ln (10001 / 10000 :: real)"
  have r: "0 < r" "\<bar>r - 1 / 100\<bar> \<le> 1 / 1000000000000000"
    unfolding r_def by (rule clamped_pos, rule clamped_near)
  have b: "r * 10000 \<le> Y" "Y \<le> r * (100000000 / 9999)"
    unfolding Y_def using r(1) by (intro tick_quot; simp)+
  have "compute_optimal_range m (Fin 1) (Fin r) (Fin 1) 60
       = Inr ((- 2) * 60, if (1 :: int) * 60 + 60 \<le> (- 2) * 60 then (- 2) * 60 + 60 else 1 * 60 + 60)"
  proof (rule unit_eval [where Y = Y and A = "- 120" and B = 60])
    show "0 < r" by (rule r(1))
    show "\<bar>1 * r\<bar> \<le> 600" using r by linarith
    show "Y = 1 * r / ln (10001 / 10000)" by (simp add: Y_def)
    show "- 120 + 2 \<le> - Y" "- Y \<le> - 120 + 59" "60 + 2 \<le> Y" "Y \<le> 60 + 59"
      using b r by linarith+
  qed simp_all
  moreover have "clamped (Fin 0) = Fin r" by (simp add: clamped_def r_def)
  ultimately show ?thesis
    using compute_optimal_range_clamped [of m "Fin 1" "Fin 0" "Fin 1" 60] by simp
qed

lemma unit_negative_1:
  "compute_optimal_range m (Fin 1) (Fin (1 / 16)) (Fin (- 1)) 60 = Inr (600, 660)"
proof -
  define Z where "Z = 1 / 16 / ln (10001 / 10000 :: real)"
  have b: "1 / 16 * 10000 \<le> Z" "Z \<le> 1 / 16 * (100000000 / 9999)"
    unfolding Z_def by (rule tick_quot; simp)+
  have "compute_optimal_range m (Fin 1) (Fin (1 / 16)) (Fin (- 1)) 60
       = Inr (10 * 60, if (- 11 :: int) * 60 + 60 \<le> 10 * 60 then 10 * 60 + 60 else (- 11) * 60 + 60)"
  proof (rule unit_eval [where Y = "- Z" and A = 600 and B = "- 660"])
    show "- Z = - 1 * (1 / 16) / ln (10001 / 10000)" by (simp add: Z_def)
    show "600 + 2 \<le> - (- Z)" "- (- Z) \<le> 600 + 59" "- 660 + 2 \<le> - Z" "- Z \<le> - 660 + 59"
      using b by linarith+
  qed simp_all
  then show ?thesis by simp
qed

lemma unit_negative_2:
  "compute_optimal_range m (Fin 1) (Fin (1 / 4)) (Fin (- 1)) 60 = Inr (2460, 2520)"
proof -
  define Z where "Z = 1 / 4 / ln (10001 / 10000 :: real)"
  have b: "1 / 4 * 10000 \<le> Z" "Z \<le> 1 / 4 * (100000000 / 9999)"
    unfolding Z_def by (rule tick_quot; simp)+
  have "compute_optimal_range m (Fin 1) (Fin (1 / 4)) (Fin (- 1)) 60
       = Inr (41 * 60, if (- 42 :: int) * 60 + 60 \<le> 41 * 60 then 41 * 60 + 60 else (- 42) * 60 + 60)"
  proof (rule unit_eval [where Y = "- Z" and A = 2460 and B = "- 2520"])
    show "- Z = - 1 * (1 / 4) / ln (10001 / 10000)" by (simp add: Z_def)
    show "2460 + 2 \<le> - (- Z)" "- (- Z) \<le> 2460 + 59" "- 2520 + 2 \<le> - Z" "- Z \<le> - 2520 + 59"
      using b by linarith+
  qed simp_all
  then show ?thesis by simp
qed

text \<open>
  C5 (as stated) fails. The two ticks are rounded down to multiples of the tick
  spacing, so that a small increase leaves the width unchanged: for price 1 and multiplier
  1 the volatilities \<open>2 ^ - 10\<close> and \<open>2 ^ - 10 + 2 ^ - 12\<close> both give \<open>(-60, 60)\<close>, and so do
  volatility \<open>2 ^ - 10\<close> with the multipliers 1 and 1.25. A volatility that is not positive
  is replaced by 0.01: the volatility 0 gives \<open>(-120, 120)\<close>, wider than the larger
  volatility \<open>2 ^ - 10\<close>. With a negative multiplier the upper tick is below the lower one
  and the width is one tick spacing, whatever the volatility: for multiplier \<open>-1\<close> the
  volatilities \<open>1 / 16\<close> and \<open>1 / 4\<close> give \<open>(600, 660)\<close> and \<open>(2460, 2520)\<close>. And for a
  large product of multiplier and volatility there is no range at all: price 1,
  volatility 1 and multiplier 2000 raise \<open>OverflowError\<close>.
\<close>

theorem width_equal_counterexample:
  "\<forall>m. compute_optimal_range m (Fin 1) (Fin (1 / 1024)) (Fin 1) 60 = Inr (- 60, 60)
     \<and> compute_optimal_range m (Fin 1) (Fin (5 / 4096)) (Fin 1) 60 = Inr (- 60, 60)
     \<and> compute_optimal_range m (Fin 1) (Fin (1 / 1024)) (Fin (5 / 4)) 60 = Inr (- 60, 60)
     \<and> compute_optimal_range m (Fin 1) (Fin 0) (Fin 1) 60 = Inr (- 120, 120)
     \<and> compute_optimal_range m (Fin 1) (Fin (1 / 16)) (Fin (- 1)) 60 = Inr (600, 660)
     \<and> compute_optimal_range m (Fin 1) (Fin (1 / 4)) (Fin (- 1)) 60 = Inr (2460, 2520)
     \<and> compute_optimal_range m (Fin 1) (Fin 1) (Fin 2000) 60 = Inl OverflowError"
  using unit_small_1 unit_small_2 unit_small_3 unit_clamped unit_negative_1 unit_negative_2
    range_overflow
  by blast

lemma rnd_near:
  assumes "\<bar>x\<bar> \<le> 1"
  shows "\<bar>rnd x - x\<bar> \<le> 2 / 1000000000000000"
  using rnd_err_num [of x] tiny_le assms by linarith

lemma region_2450:
  fixes y :: real
  assumes "0 \<le> y" and "y \<le> 600"
  shows "1 / 2 ^ 1000 \<le> 2450 * exp (- y)" and "2450 * exp y \<le> 2 ^ 1000"
proof -
  have a: "\<bar>y\<bar> \<le> 600" and b: "\<bar>y\<bar> = y" using assms by simp_all
  show "1 / 2 ^ 1000 \<le> 2450 * exp (- y)" "2450 * exp y \<le> 2 ^ 1000"
    using region_moderate [OF a, of 2450] unfolding b by simp_all
qed

text \<open>
  The two comparisons of the repository's tests: price 2450 and tick spacing 60, with
  multiplier 2 and the volatilities 0.05 and 0.20, and with volatility 0.08 and the
  multipliers 1 and 3.
\<close>

theorem range_width_increases_witness:
  "\<forall>m. (\<exists>lo1 hi1 lo2 hi2.
          compute_optimal_range m (Fin 2450) (Fin (rnd (1 / 20))) (Fin 2) 60 = Inr (lo1, hi1)
        \<and> compute_optimal_range m (Fin 2450) (Fin (rnd (1 / 5))) (Fin 2) 60 = Inr (lo2, hi2)
        \<and> hi1 - lo1 < hi2 - lo2)
     \<and> (\<exists>lo1 hi1 lo2 hi2.
          compute_optimal_range m (Fin 2450) (Fin (rnd (2 / 25))) (Fin 1) 60 = Inr (lo1, hi1)
        \<and> compute_optimal_range m (Fin 2450) (Fin (rnd (2 / 25))) (Fin 3) 60 = Inr (lo2, hi2)
        \<and> hi1 - lo1 < hi2 - lo2)"
proof (intro allI conjI)
  fix m
  have s: "(0 :: int) < 60" by simp
  have c: "ln (10001 / 10000 :: real) < 1 / 10000" by (rule tick_base_upper)
  have a: "\<bar>rnd (1 / 20) - 1 / 20\<bar> \<le> 2 / 1000000000000000"
    and b: "\<bar>rnd (1 / 5) - 1 / 5\<bar> \<le> 2 / 1000000000000000"
    and d: "\<bar>rnd (2 / 25) - 2 / 25\<bar> \<le> 2 / 1000000000000000"
    by (rule rnd_near, simp)+
  have "61 * ln (10001 / 10000) \<le> 2 * rnd (1 / 5) - 2 * rnd (1 / 20)"
    using a b c by linarith
  then have "(of_int (60 :: int) + 1) * ln (10001 / 10000) \<le> 2 * rnd (1 / 5) - 2 * rnd (1 / 20)"
    by simp
  moreover have "0 < rnd (1 / 20)" "rnd (1 / 20) \<le> rnd (1 / 5)" "2 * rnd (1 / 5) \<le> 600"
    "0 \<le> 2 * rnd (1 / 5)"
    using a b by linarith+
  ultimately show "\<exists>lo1 hi1 lo2 hi2.
          compute_optimal_range m (Fin 2450) (Fin (rnd (1 / 20))) (Fin 2) 60 = Inr (lo1, hi1)
        \<and> compute_optimal_range m (Fin 2450) (Fin (rnd (1 / 5))) (Fin 2) 60 = Inr (lo2, hi2)
        \<and> hi1 - lo1 < hi2 - lo2"
    using range_width_increases [OF s, of 2 2 "rnd (1 / 20)" "rnd (1 / 5)" 2450 m]
      region_2450 [of "2 * rnd (1 / 5)"]
    by auto
  have "61 * ln (10001 / 10000) \<le> 3 * rnd (2 / 25) - 1 * rnd (2 / 25)"
    using d c by linarith
  then have "(of_int (60 :: int) + 1) * ln (10001 / 10000) \<le> 3 * rnd (2 / 25) - 1 * rnd (2 / 25)"
    by simp
  moreover have "0 < rnd (2 / 25)" "3 * rnd (2 / 25) \<le> 600" "0 \<le> 3 * rnd (2 / 25)"
    using d by linarith+
  ultimately show "\<exists>lo1 hi1 lo2 hi2.
          compute_optimal_range m (Fin 2450) (Fin (rnd (2 / 25))) (Fin 1) 60 = Inr (lo1, hi1)
        \<and> compute_optimal_range m (Fin 2450) (Fin (rnd (2 / 25))) (Fin 3) 60 = Inr (lo2, hi2)
        \<and> hi1 - lo1 < hi2 - lo2"
    using range_width_increases [OF s, of 1 3 "rnd (2 / 25)" "rnd (2 / 25)" 2450 m]
      region_2450 [of "3 * rnd (2 / 25)"]
    by auto
qed

end
